theory Spec2Isabelle
  imports Main "HOL-Library.AList"
begin

section \<open>Python values used by \<open>project3_assembly.py\<close>\<close>

text \<open>
  A Python \<open>str\<close> is a \<open>string\<close>, a Python \<open>int\<close> is an \<open>int\<close>. A \<open>dict\<close> keeps its
  insertion order, and every loop of the program iterates a dict in that order, so a dict
  is an association list: the order of the pairs is the insertion order, \<open>map_of\<close> is the
  lookup, and \<open>dict_set\<close> is the assignment \<open>d[k] = v\<close> (the value is replaced where the
  key already stands, a new key goes to the end).
\<close>

type_synonym ('k, 'v) dict = "('k \<times> 'v) list"

definition dict_set :: "('k, 'v) dict \<Rightarrow> 'k \<Rightarrow> 'v \<Rightarrow> ('k, 'v) dict" where
  "dict_set d k v = AList.update k v d"

definition keys :: "('k, 'v) dict \<Rightarrow> 'k list" where
  "keys d = map fst d"

text \<open>The exceptions the modelled code can raise, and the exhaustion of the recursion
  budget of \<open>build_contig\<close> (see there).\<close>

datatype error = KeyError | IndexError | OutOfFuel

text \<open>\<open>range(n)\<close>: the integers from 0 below \<open>n\<close>, none when \<open>n \<le> 0\<close>.\<close>

definition py_range :: "int \<Rightarrow> int list" where
  "py_range n = map int [0 ..< nat n]"

text \<open>
  The slice \<open>s[i:j]\<close>. A negative bound counts from the end, and every bound is clipped
  to \<open>0 .. len(s)\<close>; the slice is empty when the start is not before the end.
\<close>

definition py_bound :: "nat \<Rightarrow> int \<Rightarrow> nat" where
  "py_bound n i = (if i < 0 then nat (i + int n) else min (nat i) n)"

definition py_slice :: "string \<Rightarrow> int \<Rightarrow> int \<Rightarrow> string" where
  "py_slice s i j =
     (let a = py_bound (length s) i; b = py_bound (length s) j
      in take (b - a) (drop a s))"

section \<open>\<open>index_kmers\<close>\<close>

text \<open>
  \<open>pattern.match(sequence)\<close> for \<open>pattern = re.compile('^[ACGT]+$')\<close>. The match starts
  at the beginning of the string and takes one or more of the four letters; \<open>$\<close> then
  accepts the end of the string and also the position just before a newline that ends
  the string.
\<close>

definition nucleotides :: "char set" where
  "nucleotides = {CHR ''A'', CHR ''C'', CHR ''G'', CHR ''T''}"

definition acgt_plus :: "string \<Rightarrow> bool" where
  "acgt_plus s \<longleftrightarrow> s \<noteq> [] \<and> (\<forall>c \<in> set s. c \<in> nucleotides)"

definition pattern_match :: "string \<Rightarrow> bool" where
  "pattern_match sequence \<longleftrightarrow>
     acgt_plus sequence \<or>
     (sequence \<noteq> [] \<and> last sequence = CHR ''\<newline>'' \<and> acgt_plus (butlast sequence))"

type_synonym kmer_counts = "(string, int) dict"

text \<open>The body of the inner loop: \<open>kmers[kmer] += 1\<close> for a known k-mer, otherwise
  \<open>kmers[kmer] = 1\<close>.\<close>

definition count_kmer :: "kmer_counts \<Rightarrow> string \<Rightarrow> kmer_counts" where
  "count_kmer kmers kmer =
     (case map_of kmers kmer of
        Some c \<Rightarrow> dict_set kmers kmer (c + 1)
      | None \<Rightarrow> dict_set kmers kmer 1)"

text \<open>One turn of the outer loop: a sequence the pattern rejects is skipped, otherwise
  the window \<open>sequence[i:i+k]\<close> is counted for every \<open>i\<close> in
  \<open>range(len(sequence) - k + 1)\<close>.\<close>

definition index_sequence :: "int \<Rightarrow> kmer_counts \<Rightarrow> string \<Rightarrow> kmer_counts" where
  "index_sequence k kmers sequence =
     (if \<not> pattern_match sequence then kmers
      else foldl (\<lambda>km i. count_kmer km (py_slice sequence i (i + k))) kmers
             (py_range (int (length sequence) - k + 1)))"

definition index_kmers :: "string list \<Rightarrow> int \<Rightarrow> kmer_counts" where
  "index_kmers sequences k = foldl (index_sequence k) [] sequences"

section \<open>\<open>filter_kmers\<close>\<close>

definition filter_kmers :: "kmer_counts \<Rightarrow> int \<Rightarrow> kmer_counts" where
  "filter_kmers kmers threshold =
     foldl (\<lambda>filtered_kmers (kmer, abundance).
              if abundance \<ge> threshold then dict_set filtered_kmers kmer abundance
              else filtered_kmers)
       [] kmers"

section \<open>\<open>predecessors_and_successors\<close>\<close>

text \<open>The value \<open>{"successors": ..., "predecessors": ...}\<close> stored for each k-mer.\<close>

record entry =
  successors :: "string list"
  predecessors :: "string list"

type_synonym index = "(string, entry) dict"

text \<open>The loop \<open>for i in posibility: if i in filtered_kmers.keys(): l.append(i)\<close>.\<close>

definition present :: "string list \<Rightarrow> kmer_counts \<Rightarrow> string list" where
  "present posibility filtered_kmers =
     foldl (\<lambda>l i. if i \<in> set (keys filtered_kmers) then l @ [i] else l) [] posibility"

definition successors_l :: "kmer_counts \<Rightarrow> string \<Rightarrow> string list" where
  "successors_l filtered_kmers w =
     (let kmer = tl w
      in present [kmer @ ''A'', kmer @ ''C'', kmer @ ''G'', kmer @ ''T''] filtered_kmers)"

definition predecessors_l :: "kmer_counts \<Rightarrow> string \<Rightarrow> string list" where
  "predecessors_l filtered_kmers w =
     (let kmer = butlast w
      in present [''A'' @ kmer, ''C'' @ kmer, ''G'' @ kmer, ''T'' @ kmer] filtered_kmers)"

definition predecessors_and_successors :: "kmer_counts \<Rightarrow> index" where
  "predecessors_and_successors filtered_kmers =
     foldl (\<lambda>index w.
              dict_set index w
                \<lparr>successors = successors_l filtered_kmers w,
                 predecessors = predecessors_l filtered_kmers w\<rparr>)
       [] (keys filtered_kmers)"

section \<open>\<open>simple_path\<close>\<close>

text \<open>
  The two variables \<open>contig_dict\<close> and \<open>visited\<close> that \<open>simple_path\<close> creates and
  \<open>build_contig\<close> mutates are the fields of the same name. The other two fields are
  ghost counters, which the program never reads: \<open>memo_hits\<close> counts the executions of
  \<open>return contig_dict[w]\<close>, and \<open>revisits\<close> counts the calls of \<open>build_contig\<close> whose
  argument is in \<open>visited\<close> when the call is entered.
\<close>

record tstate =
  visited :: "string set"
  contig_dict :: "(string, string) dict"
  memo_hits :: nat
  revisits :: nat

type_synonym 'a result = "error + 'a"

text \<open>Sequencing: an exception of the first step ends the computation.\<close>

definition then_do :: "'a result \<Rightarrow> ('a \<Rightarrow> 'b result) \<Rightarrow> 'b result" where
  "then_do r f = (case r of Inl e \<Rightarrow> Inl e | Inr x \<Rightarrow> f x)"

definition visit :: "string \<Rightarrow> tstate \<Rightarrow> tstate" where
  "visit w st = st\<lparr>visited := insert w (visited st)\<rparr>"

text \<open>The number of keys of the index that are not visited: what the two \<open>while\<close>
  loops and the recursion use up.\<close>

definition unvisited :: "index \<Rightarrow> tstate \<Rightarrow> nat" where
  "unvisited idx st = length (filter (\<lambda>w. w \<notin> visited st) (keys idx))"

lemma unvisited_visit_less:
  assumes "map_of idx s = Some e" and "s \<notin> visited st"
  shows "unvisited idx (visit s st) < unvisited idx st"
proof -
  have "s \<in> set (keys idx)"
    using assms(1) by (metis keys_def map_of_eq_None_iff option.distinct(1) set_map)
  then have "s \<in> set (filter (\<lambda>w. w \<notin> visited st) (keys idx))"
    using assms(2) by simp
  then have "length (filter (\<lambda>w. w \<noteq> s) (filter (\<lambda>w. w \<notin> visited st) (keys idx)))
               < length (filter (\<lambda>w. w \<notin> visited st) (keys idx))"
    by (rule length_filter_less) simp
  moreover have "filter (\<lambda>w. w \<noteq> s) (filter (\<lambda>w. w \<notin> visited st) (keys idx))
                   = filter (\<lambda>w. w \<notin> visited (visit s st)) (keys idx)"
    by (auto simp: visit_def intro: filter_cong)
  ultimately show ?thesis by (simp add: unvisited_def)
qed

text \<open>
  The forward loop
  \<^verbatim>\<open>while len(successor) == 1 and successor[0] not in visited:
    contig += successor[0][-1]
    visited.add(successor[0])
    successor = index[successor[0]]["successors"]\<close>
  \<open>successor[0][-1]\<close> raises IndexError on the empty string and \<open>index[...]\<close> raises
  KeyError on a string that is no key. Every turn that goes on visits one more key.
\<close>

function forward_loop ::
  "index \<Rightarrow> string list \<Rightarrow> string \<Rightarrow> tstate \<Rightarrow> (string list \<times> string \<times> tstate) result" where
  "forward_loop idx successor contig st =
     (if length successor = 1 \<and> hd successor \<notin> visited st then
        if hd successor = [] then Inl IndexError
        else (case map_of idx (hd successor) of
                None \<Rightarrow> Inl KeyError
              | Some e \<Rightarrow>
                  forward_loop idx (successors e) (contig @ [last (hd successor)])
                    (visit (hd successor) st))
      else Inr (successor, contig, st))"
  by pat_completeness auto
termination
  by (relation "measure (\<lambda>(idx, successor, contig, st). unvisited idx st)")
     (auto intro: unvisited_visit_less)

declare forward_loop.simps [simp del]

text \<open>
  The backward loop
  \<^verbatim>\<open>while len(pre) == 1 and pre[0] not in visited:
    contig = pre[0][0] + contig
    visited.add(pre[0])
    pre = index[pre[0]]["predecessors"]\<close>
\<close>

function backward_loop ::
  "index \<Rightarrow> string list \<Rightarrow> string \<Rightarrow> tstate \<Rightarrow> (string list \<times> string \<times> tstate) result" where
  "backward_loop idx pre contig st =
     (if length pre = 1 \<and> hd pre \<notin> visited st then
        if hd pre = [] then Inl IndexError
        else (case map_of idx (hd pre) of
                None \<Rightarrow> Inl KeyError
              | Some e \<Rightarrow>
                  backward_loop idx (predecessors e) (hd (hd pre) # contig)
                    (visit (hd pre) st))
      else Inr (pre, contig, st))"
  by pat_completeness auto
termination
  by (relation "measure (\<lambda>(idx, pre, contig, st). unvisited idx st)")
     (auto intro: unvisited_visit_less)

declare backward_loop.simps [simp del]

text \<open>
  The loop of the forward branch resolution, with \<open>build\<close> for the recursive call:
  \<^verbatim>\<open>for s in successor:
    if s not in visited:
        new_contig = build_contig(s)
        if len(new_contig) > len(best_contig):
            best_contig = new_contig\<close>
\<close>

fun forward_branch ::
  "(string \<Rightarrow> tstate \<Rightarrow> (string \<times> tstate) result) \<Rightarrow> string list \<Rightarrow> string \<Rightarrow> tstate
     \<Rightarrow> (string \<times> tstate) result" where
  "forward_branch build [] best_contig st = Inr (best_contig, st)"
| "forward_branch build (s # ss) best_contig st =
     (if s \<notin> visited st then
        (case build s st of
           Inl err \<Rightarrow> Inl err
         | Inr (new_contig, st') \<Rightarrow>
             forward_branch build ss
               (if length new_contig > length best_contig then new_contig else best_contig) st')
      else forward_branch build ss best_contig st)"

text \<open>\<open>if len(successor) > 1: best_contig = contig; for ...; contig = best_contig\<close>\<close>

definition forward_resolution ::
  "(string \<Rightarrow> tstate \<Rightarrow> (string \<times> tstate) result) \<Rightarrow> string list \<Rightarrow> string \<Rightarrow> tstate
     \<Rightarrow> (string \<times> tstate) result" where
  "forward_resolution build successor contig st =
     (if length successor > 1 then forward_branch build successor contig st
      else Inr (contig, st))"

text \<open>
  The loop of the backward branch resolution; \<open>contig\<close> does not change in it:
  \<^verbatim>\<open>for p in pre:
    if p not in visited:
        new_contig = build_contig(p) + contig
        if len(new_contig) > len(best_contig):
            best_contig = new_contig\<close>
\<close>

fun backward_branch ::
  "(string \<Rightarrow> tstate \<Rightarrow> (string \<times> tstate) result) \<Rightarrow> string list \<Rightarrow> string \<Rightarrow> string
     \<Rightarrow> tstate \<Rightarrow> (string \<times> tstate) result" where
  "backward_branch build [] contig best_contig st = Inr (best_contig, st)"
| "backward_branch build (p # ps) contig best_contig st =
     (if p \<notin> visited st then
        (case build p st of
           Inl err \<Rightarrow> Inl err
         | Inr (c, st') \<Rightarrow>
             backward_branch build ps contig
               (if length (c @ contig) > length best_contig then c @ contig else best_contig) st')
      else backward_branch build ps contig best_contig st)"

text \<open>\<open>if len(pre) > 1: best_contig = contig; for ...; contig = best_contig\<close>\<close>

definition backward_resolution ::
  "(string \<Rightarrow> tstate \<Rightarrow> (string \<times> tstate) result) \<Rightarrow> string list \<Rightarrow> string \<Rightarrow> tstate
     \<Rightarrow> (string \<times> tstate) result" where
  "backward_resolution build pre contig st =
     (if length pre > 1 then backward_branch build pre contig contig st
      else Inr (contig, st))"

text \<open>The ghost bookkeeping at the entry of \<open>build_contig\<close>.\<close>

definition enter :: "string \<Rightarrow> tstate \<Rightarrow> tstate" where
  "enter w st = (if w \<in> visited st then st\<lparr>revisits := Suc (revisits st)\<rparr> else st)"

text \<open>
  \<open>build_contig\<close>. The Python function calls itself from the two branch resolutions,
  after it has changed \<open>visited\<close>; the model counts the depth of these calls down from a
  budget and answers \<open>OutOfFuel\<close> at depth zero. \<open>simple_path\<close> gives every call of its
  loop a budget of \<open>len(index) + 1\<close>. This budget is never used up: \<open>OutOfFuel\<close> is not
  the answer of \<open>simple_path\<close> on any index (\<open>simple_path_no_fuel\<close> below), and on an index
  that \<open>predecessors_and_successors\<close> built the answer is a list of contigs
  (\<open>pipeline_returns\<close>). So \<open>simple_path\<close> is the run on an interpreter whose recursion
  limit is not reached; \<open>simple_path_limited\<close> below is the run under a given limit.
\<close>

primrec build_contig :: "index \<Rightarrow> nat \<Rightarrow> string \<Rightarrow> tstate \<Rightarrow> (string \<times> tstate) result" where
  "build_contig idx 0 w st = Inl OutOfFuel"
| "build_contig idx (Suc fuel) w st =
     (case map_of (contig_dict (enter w st)) w of
        Some c \<Rightarrow> Inr (c, (enter w st)\<lparr>memo_hits := Suc (memo_hits (enter w st))\<rparr>)
      | None \<Rightarrow>
          (case map_of idx w of
             None \<Rightarrow> Inl KeyError
           | Some e \<Rightarrow>
               then_do (forward_loop idx (successors e) w (visit w (enter w st)))
                 (\<lambda>(successor, contig, st1).
               then_do (forward_resolution (build_contig idx fuel) successor contig st1)
                 (\<lambda>(contig, st2).
               then_do (backward_loop idx (predecessors e) contig st2)
                 (\<lambda>(pre, contig, st3).
               then_do (backward_resolution (build_contig idx fuel) pre contig st3)
                 (\<lambda>(contig, st4).
               Inr (contig, st4\<lparr>contig_dict := dict_set (contig_dict st4) w contig\<rparr>)))))))"

text \<open>
  The loop of \<open>simple_path\<close>:
  \<^verbatim>\<open>for w in index.keys():
    if w not in visited:
        list_contig.append(build_contig(w))\<close>
\<close>

fun start_loop ::
  "index \<Rightarrow> nat \<Rightarrow> string list \<Rightarrow> string list \<Rightarrow> tstate \<Rightarrow> (string list \<times> tstate) result" where
  "start_loop idx fuel [] list_contig st = Inr (list_contig, st)"
| "start_loop idx fuel (w # ws) list_contig st =
     (if w \<notin> visited st then
        (case build_contig idx fuel w st of
           Inl err \<Rightarrow> Inl err
         | Inr (c, st') \<Rightarrow> start_loop idx fuel ws (list_contig @ [c]) st')
      else start_loop idx fuel ws list_contig st)"

definition initial :: tstate where
  "initial = \<lparr>visited = {}, contig_dict = [], memo_hits = 0, revisits = 0\<rparr>"

text \<open>\<open>simple_path_run\<close> also returns the final state, \<open>simple_path\<close> what the Python
  function returns.\<close>

definition simple_path_run :: "index \<Rightarrow> (string list \<times> tstate) result" where
  "simple_path_run idx = start_loop idx (Suc (length idx)) (keys idx) [] initial"

definition simple_path :: "index \<Rightarrow> string list result" where
  "simple_path idx = then_do (simple_path_run idx) (\<lambda>(list_contig, st). Inr list_contig)"

text \<open>The four stages in the order in which \<open>main\<close> calls them.\<close>

definition pipeline :: "string list \<Rightarrow> int \<Rightarrow> int \<Rightarrow> string list result" where
  "pipeline sequences k threshold =
     simple_path (predecessors_and_successors (filter_kmers (index_kmers sequences k) threshold))"

text \<open>
  The run under the recursion limit of the interpreter. \<open>limit\<close> is the number of nested
  calls of \<open>build_contig\<close> that the interpreter still allows where the loop of
  \<open>simple_path\<close> calls it (in CPython \<open>sys.getrecursionlimit()\<close> less the frames in
  use); a call one level deeper raises RecursionError, and nothing in the program catches
  it. So the budget of \<open>build_contig\<close> is \<open>limit\<close> here, and in the answers of these two
  functions \<open>OutOfFuel\<close> is that RecursionError.
\<close>

definition simple_path_limited :: "nat \<Rightarrow> index \<Rightarrow> string list result" where
  "simple_path_limited limit idx =
     then_do (start_loop idx limit (keys idx) [] initial) (\<lambda>(list_contig, st). Inr list_contig)"

definition pipeline_limited :: "nat \<Rightarrow> string list \<Rightarrow> int \<Rightarrow> int \<Rightarrow> string list result" where
  "pipeline_limited limit sequences k threshold =
     simple_path_limited limit
       (predecessors_and_successors (filter_kmers (index_kmers sequences k) threshold))"

section \<open>Auxiliary notions of the proofs\<close>

text \<open>Every count is at least one, as in a dict that \<open>index_kmers\<close> has filled.\<close>

definition counted :: "kmer_counts \<Rightarrow> bool" where
  "counted d \<longleftrightarrow> (\<forall>(kmer, abundance) \<in> set d. 1 \<le> abundance)"

text \<open>The value that \<open>predecessors_and_successors\<close> stores under the key \<open>w\<close>.\<close>

definition entry_of :: "kmer_counts \<Rightarrow> string \<Rightarrow> entry" where
  "entry_of filtered_kmers w =
     \<lparr>successors = successors_l filtered_kmers w, predecessors = predecessors_l filtered_kmers w\<rparr>"

text \<open>The invariant of the traversal: every key of the memo is visited.\<close>

definition memo_visited :: "tstate \<Rightarrow> bool" where
  "memo_visited st \<longleftrightarrow> set (keys (contig_dict st)) \<subseteq> visited st"

text \<open>What a piece of the traversal does to the state: \<open>visited\<close> grows, the ghost
  counters stay, and the invariant holds afterwards.\<close>

definition extends :: "tstate \<Rightarrow> tstate \<Rightarrow> bool" where
  "extends st st' \<longleftrightarrow>
     visited st \<subseteq> visited st' \<and> memo_hits st' = memo_hits st \<and> revisits st' = revisits st
     \<and> memo_visited st'"

text \<open>A list of non-empty strings that are keys of the index, and an index whose
  successor and predecessor lists are all of this kind: on such an index no lookup and
  no character access of \<open>build_contig\<close> fails.\<close>

definition nodes :: "index \<Rightarrow> string list \<Rightarrow> bool" where
  "nodes idx ss \<longleftrightarrow> (\<forall>s \<in> set ss. s \<noteq> [] \<and> s \<in> set (keys idx))"

definition closed_index :: "index \<Rightarrow> bool" where
  "closed_index idx \<longleftrightarrow>
     (\<forall>w e. map_of idx w = Some e \<longrightarrow> nodes idx (successors e) \<and> nodes idx (predecessors e))"

section \<open>Notions of the claims on branch resolution\<close>

text \<open>
  The contigs that the recursive calls of a branch resolution return, in the order of the
  calls, and the state after the last call. There is one call for every entry of the
  list that is not visited when its turn comes.
\<close>

fun recursive_contigs ::
  "(string \<Rightarrow> tstate \<Rightarrow> (string \<times> tstate) result) \<Rightarrow> string list \<Rightarrow> tstate
     \<Rightarrow> (string list \<times> tstate) result" where
  "recursive_contigs build [] st = Inr ([], st)"
| "recursive_contigs build (s # ss) st =
     (if s \<notin> visited st then
        (case build s st of
           Inl err \<Rightarrow> Inl err
         | Inr (c, st') \<Rightarrow>
             (case recursive_contigs build ss st' of
                Inl err \<Rightarrow> Inl err
              | Inr (cs, st'') \<Rightarrow> Inr (c # cs, st'')))
      else recursive_contigs build ss st)"

text \<open>The choice among the current contig and the candidates that follow it: a
  candidate replaces the kept string only when it is strictly longer.\<close>

fun keep_longest :: "string \<Rightarrow> string list \<Rightarrow> string" where
  "keep_longest best [] = best"
| "keep_longest best (c # cs) = keep_longest (if length c > length best then c else best) cs"

text \<open>The entries of a list that are not visited.\<close>

definition unvisited_entries :: "string list \<Rightarrow> tstate \<Rightarrow> string list" where
  "unvisited_entries ss st = filter (\<lambda>s. s \<notin> visited st) ss"

text \<open>The backward branch resolution as claim C3 words its condition: performed exactly
  when more than one entry of the predecessor list is unvisited.\<close>

definition backward_resolution_claimed ::
  "(string \<Rightarrow> tstate \<Rightarrow> (string \<times> tstate) result) \<Rightarrow> string list \<Rightarrow> string \<Rightarrow> tstate
     \<Rightarrow> (string \<times> tstate) result" where
  "backward_resolution_claimed build pre contig st =
     (if length (unvisited_entries pre st) > 1 then backward_branch build pre contig contig st
      else Inr (contig, st))"

text \<open>The index of the run on \<open>sequences = ["CACAGAGAC"]\<close>, \<open>k = 2\<close>, \<open>threshold = 2\<close>: the
  four k-mers CA, AC, AG, GA, each counted twice; CA and GA both precede AC and AG.\<close>

definition cacagagac :: index where
  "cacagagac = predecessors_and_successors (filter_kmers (index_kmers [''CACAGAGAC''] 2) 2)"

section \<open>The scenario of the specification\<close>

text \<open>
  Claim C1. On \<open>sequences = ["ACGTACGTA"]\<close>, \<open>k = 3\<close> and \<open>threshold = 2\<close> the four
  stages produce the values the specification lists: \<open>index_kmers\<close> counts ACG, CGT and
  GTA twice and TAC once, \<open>filter_kmers\<close> keeps ACG, CGT and GTA,
  \<open>predecessors_and_successors\<close> links ACG to CGT and CGT to GTA and nothing else, and
  \<open>simple_path\<close> returns the single contig ACGTA.
\<close>

theorem scenario_acgtacgta:
  "index_kmers [''ACGTACGTA''] 3 = [(''ACG'', 2), (''CGT'', 2), (''GTA'', 2), (''TAC'', 1)]
   \<and> filter_kmers [(''ACG'', 2), (''CGT'', 2), (''GTA'', 2), (''TAC'', 1)] 2
       = [(''ACG'', 2), (''CGT'', 2), (''GTA'', 2)]
   \<and> predecessors_and_successors [(''ACG'', 2), (''CGT'', 2), (''GTA'', 2)]
       = [(''ACG'', \<lparr>successors = [''CGT''], predecessors = []\<rparr>),
          (''CGT'', \<lparr>successors = [''GTA''], predecessors = [''ACG'']\<rparr>),
          (''GTA'', \<lparr>successors = [], predecessors = [''CGT'']\<rparr>)]
   \<and> simple_path
         [(''ACG'', \<lparr>successors = [''CGT''], predecessors = []\<rparr>),
          (''CGT'', \<lparr>successors = [''GTA''], predecessors = [''ACG'']\<rparr>),
          (''GTA'', \<lparr>successors = [], predecessors = [''CGT'']\<rparr>)]
       = Inr [''ACGTA'']
   \<and> pipeline [''ACGTACGTA''] 3 2 = Inr [''ACGTA'']"
  by code_simp

section \<open>Properties of dicts\<close>

lemma keys_dict_set:
  "keys (dict_set d k v) = (if k \<in> set (keys d) then keys d else keys d @ [k])"
  by (simp add: keys_def dict_set_def update_keys)

lemma set_keys_dict_set: "set (keys (dict_set d k v)) = insert k (set (keys d))"
  by (auto simp: keys_dict_set)

lemma distinct_keys_dict_set: "distinct (keys d) \<Longrightarrow> distinct (keys (dict_set d k v))"
  by (simp add: keys_dict_set)

lemma map_of_dict_set: "map_of (dict_set d k v) = (map_of d)(k \<mapsto> v)"
  by (simp add: dict_set_def update_conv')

lemma dict_set_new: "k \<notin> set (keys d) \<Longrightarrow> dict_set d k v = d @ [(k, v)]"
  by (induction d) (auto simp: dict_set_def keys_def)

lemma in_keys_iff: "k \<in> set (keys d) \<longleftrightarrow> map_of d k \<noteq> None"
  by (simp add: keys_def map_of_eq_None_iff)

lemma foldl_invariant:
  assumes "P acc" and "\<And>a x. x \<in> set xs \<Longrightarrow> P a \<Longrightarrow> P (f a x)"
  shows "P (foldl f acc xs)"
  using assms by (induction xs arbitrary: acc) auto

section \<open>Properties of \<open>filter_kmers\<close>\<close>

lemma filter_kmers_foldl:
  "distinct (keys (acc @ kmers)) \<Longrightarrow>
   foldl (\<lambda>filtered_kmers (kmer, abundance).
            if abundance \<ge> threshold then dict_set filtered_kmers kmer abundance
            else filtered_kmers) acc kmers
   = acc @ filter (\<lambda>(kmer, abundance). abundance \<ge> threshold) kmers"
proof (induction kmers arbitrary: acc)
  case Nil
  then show ?case by simp
next
  case (Cons x kmers)
  obtain kmer abundance where x: "x = (kmer, abundance)" by (cases x)
  show ?case
  proof (cases "abundance \<ge> threshold")
    case True
    have new: "kmer \<notin> set (keys acc)" using Cons.prems by (auto simp: x keys_def)
    have "distinct (keys ((acc @ [(kmer, abundance)]) @ kmers))"
      using Cons.prems by (simp add: x keys_def)
    from Cons.IH [OF this] show ?thesis using True new by (simp add: x dict_set_new)
  next
    case False
    have "distinct (keys (acc @ kmers))" using Cons.prems by (simp add: x keys_def)
    from Cons.IH [OF this] show ?thesis using False by (simp add: x)
  qed
qed

lemma filter_kmers_filter:
  "distinct (keys kmers) \<Longrightarrow>
   filter_kmers kmers threshold = filter (\<lambda>(kmer, abundance). abundance \<ge> threshold) kmers"
  using filter_kmers_foldl [of "[]" kmers threshold] by (simp add: filter_kmers_def)

text \<open>
  Claim C6. A dict of counts in which every count is at least one passes
  \<open>filter_kmers\<close> with \<open>threshold = 0\<close> unchanged: the same entries in the same order.
  A dict has distinct keys, and every dict that \<open>index_kmers\<close> returns has distinct keys
  and counts of at least one (\<open>distinct_keys_index_kmers\<close>, \<open>counted_index_kmers\<close>).
\<close>

theorem filter_kmers_zero:
  assumes "distinct (keys kmers)" and "\<forall>(kmer, abundance) \<in> set kmers. 1 \<le> abundance"
  shows "filter_kmers kmers 0 = kmers"
proof -
  have "filter (\<lambda>(kmer, abundance). abundance \<ge> 0) kmers = kmers"
    using assms(2) by (intro filter_True) auto
  then show ?thesis using assms(1) by (simp add: filter_kmers_filter)
qed

theorem filter_kmers_zero_witness:
  "distinct (keys (index_kmers [''ACGTACGTA''] 3))
   \<and> list_all (\<lambda>(kmer, abundance). 1 \<le> abundance) (index_kmers [''ACGTACGTA''] 3)
   \<and> filter_kmers (index_kmers [''ACGTACGTA''] 3) 0 = index_kmers [''ACGTACGTA''] 3"
proof -
  have v: "index_kmers [''ACGTACGTA''] 3 = [(''ACG'', 2), (''CGT'', 2), (''GTA'', 2), (''TAC'', 1)]"
    by code_simp
  have h1: "distinct (keys (index_kmers [''ACGTACGTA''] 3))" by (simp add: v keys_def)
  have h2: "\<forall>(kmer, abundance) \<in> set (index_kmers [''ACGTACGTA''] 3). 1 \<le> abundance"
    by (simp add: v)
  from filter_kmers_zero [OF h1 h2] h1 h2 show ?thesis by (simp add: list_all_iff)
qed

section \<open>Properties of \<open>index_kmers\<close>\<close>

lemma distinct_keys_count_kmer: "distinct (keys d) \<Longrightarrow> distinct (keys (count_kmer d x))"
  by (simp add: count_kmer_def distinct_keys_dict_set split: option.split)

lemma distinct_keys_index_sequence:
  "distinct (keys d) \<Longrightarrow> distinct (keys (index_sequence k d s))"
  unfolding index_sequence_def
  by (auto intro!: foldl_invariant [where P = "\<lambda>d. distinct (keys d)"] distinct_keys_count_kmer)

lemma distinct_keys_index_kmers: "distinct (keys (index_kmers sequences k))"
  unfolding index_kmers_def
  by (rule foldl_invariant [where P = "\<lambda>d. distinct (keys d)"])
     (auto simp: keys_def intro: distinct_keys_index_sequence [unfolded keys_def])

lemma set_dict_set: "set (dict_set d k v) \<subseteq> insert (k, v) (set d)"
  by (induction d) (auto simp: dict_set_def)

lemma counted_count_kmer: "counted d \<Longrightarrow> counted (count_kmer d x)"
proof -
  assume c: "counted d"
  show ?thesis
  proof (cases "map_of d x")
    case None
    then show ?thesis using c set_dict_set [of d x 1]
      by (auto simp: count_kmer_def counted_def)
  next
    case (Some a)
    then have "(x, a) \<in> set d" by (rule map_of_SomeD)
    then have "1 \<le> a + 1" using c by (auto simp: counted_def)
    then show ?thesis using c Some set_dict_set [of d x "a + 1"]
      by (auto simp: count_kmer_def counted_def)
  qed
qed

lemma counted_index_sequence: "counted d \<Longrightarrow> counted (index_sequence k d s)"
  unfolding index_sequence_def
  by (auto intro!: foldl_invariant [where P = counted] counted_count_kmer)

lemma counted_index_kmers: "counted (index_kmers sequences k)"
  unfolding index_kmers_def
proof (rule foldl_invariant [where P = counted])
  show "counted []" by (simp add: counted_def)
qed (rule counted_index_sequence)

lemma length_py_slice_window:
  assumes "0 < k" and "0 \<le> i" and "i + k \<le> int (length s)"
  shows "length (py_slice s i (i + k)) = nat k"
proof -
  have a: "py_bound (length s) i = nat i"
    using assms by (simp add: py_bound_def)
  have b: "py_bound (length s) (i + k) = nat (i + k)"
    using assms by (simp add: py_bound_def)
  have c: "nat (i + k) - nat i = nat k" using assms by linarith
  have d: "nat k \<le> length s - nat i" using assms by linarith
  show ?thesis by (simp add: py_slice_def a b c d min_absorb2)
qed

lemma keys_count_kmer: "set (keys (count_kmer d x)) = insert x (set (keys d))"
  by (simp add: count_kmer_def set_keys_dict_set split: option.split)

lemma index_sequence_key_length:
  assumes "0 < k" and "\<forall>w \<in> set (keys d). length w = nat k"
  shows "\<forall>w \<in> set (keys (index_sequence k d s)). length w = nat k"
proof (cases "pattern_match s")
  case False
  then show ?thesis using assms(2) by (simp add: index_sequence_def)
next
  case True
  have "\<forall>w \<in> set (keys (foldl (\<lambda>km i. count_kmer km (py_slice s i (i + k))) d
            (py_range (int (length s) - k + 1)))). length w = nat k"
  proof (rule foldl_invariant [where P = "\<lambda>d. \<forall>w \<in> set (keys d). length w = nat k"])
    show "\<forall>w \<in> set (keys d). length w = nat k" by (rule assms(2))
  next
    fix a :: kmer_counts and i
    assume i: "i \<in> set (py_range (int (length s) - k + 1))"
      and a: "\<forall>w \<in> set (keys a). length w = nat k"
    from i have "0 \<le> i" and "i + k \<le> int (length s)" by (auto simp: py_range_def)
    with assms(1) have "length (py_slice s i (i + k)) = nat k"
      by (intro length_py_slice_window)
    with a show "\<forall>w \<in> set (keys (count_kmer a (py_slice s i (i + k)))). length w = nat k"
      by (simp add: keys_count_kmer)
  qed
  with True show ?thesis by (simp add: index_sequence_def)
qed

lemma index_kmers_key_length:
  assumes "0 < k"
  shows "\<forall>w \<in> set (keys (index_kmers sequences k)). length w = nat k"
  unfolding index_kmers_def
proof (rule foldl_invariant [where P = "\<lambda>d. \<forall>w \<in> set (keys d). length w = nat k"])
  show "\<forall>w \<in> set (keys ([] :: kmer_counts)). length w = nat k" by (simp add: keys_def)
qed (rule index_sequence_key_length [OF assms])

section \<open>Properties of \<open>predecessors_and_successors\<close>\<close>

lemma present_foldl:
  "foldl (\<lambda>l i. if P i then l @ [i] else l) acc posibility = acc @ filter P posibility"
  by (induction posibility arbitrary: acc) auto

lemma present_filter:
  "present posibility filtered_kmers = filter (\<lambda>i. i \<in> set (keys filtered_kmers)) posibility"
  by (simp add: present_def present_foldl)

lemma index_foldl_map_of:
  "map_of (foldl (\<lambda>index w. dict_set index w (g w)) acc ws) w
     = (if w \<in> set ws then Some (g w) else map_of acc w)"
  by (induction ws arbitrary: acc) (auto simp: map_of_dict_set)

lemma index_foldl_keys:
  "distinct (keys acc @ ws) \<Longrightarrow>
   keys (foldl (\<lambda>index w. dict_set index w (g w)) acc ws) = keys acc @ ws"
  by (induction ws arbitrary: acc) (auto simp: keys_dict_set)

lemma index_foldl_set_keys:
  "set (keys (foldl (\<lambda>index w. dict_set index w (g w)) acc ws)) = set (keys acc) \<union> set ws"
  by (induction ws arbitrary: acc) (auto simp: set_keys_dict_set)

lemma map_of_adjacency:
  "map_of (predecessors_and_successors f) w
     = (if w \<in> set (keys f) then Some (entry_of f w) else None)"
  by (simp add: predecessors_and_successors_def index_foldl_map_of entry_of_def)

lemma keys_adjacency:
  "distinct (keys f) \<Longrightarrow> keys (predecessors_and_successors f) = keys f"
  using index_foldl_keys [of "[]" "keys f"]
  by (simp add: predecessors_and_successors_def keys_def)

lemma set_keys_adjacency: "set (keys (predecessors_and_successors f)) = set (keys f)"
  by (simp add: predecessors_and_successors_def index_foldl_set_keys) (simp add: keys_def)

lemma distinct_keys_filter_kmers:
  "distinct (keys kmers) \<Longrightarrow> distinct (keys (filter_kmers kmers threshold))"
  by (simp add: filter_kmers_filter keys_def distinct_map_filter)

lemma keys_filter_kmers_subset:
  "distinct (keys kmers) \<Longrightarrow> set (keys (filter_kmers kmers threshold)) \<subseteq> set (keys kmers)"
  by (auto simp: filter_kmers_filter keys_def)

text \<open>
  Claim C8. When the filtered k-mers come from \<open>index_kmers\<close> with a positive \<open>k\<close>, the
  index that \<open>predecessors_and_successors\<close> returns has the keys of the filtered dict,
  in the same order, and every key has length \<open>k\<close>.
\<close>

theorem adjacency_keys:
  assumes "0 < k" and "f = filter_kmers (index_kmers sequences k) threshold"
  shows "keys (predecessors_and_successors f) = keys f
         \<and> (\<forall>w \<in> set (keys (predecessors_and_successors f)). length w = nat k)"
proof -
  have d: "distinct (keys f)"
    unfolding assms(2) by (intro distinct_keys_filter_kmers distinct_keys_index_kmers)
  then have eq: "keys (predecessors_and_successors f) = keys f" by (rule keys_adjacency)
  have "set (keys f) \<subseteq> set (keys (index_kmers sequences k))"
    unfolding assms(2) by (intro keys_filter_kmers_subset distinct_keys_index_kmers)
  with index_kmers_key_length [OF assms(1), of sequences]
  have "\<forall>w \<in> set (keys f). length w = nat k" by blast
  with eq show ?thesis by simp
qed

theorem adjacency_keys_witness:
  "(0::int) < 3
   \<and> keys (predecessors_and_successors (filter_kmers (index_kmers [''ACGTACGTA''] 3) 2))
       = keys (filter_kmers (index_kmers [''ACGTACGTA''] 3) 2)
   \<and> list_all (\<lambda>w. length w = nat 3)
         (keys (predecessors_and_successors (filter_kmers (index_kmers [''ACGTACGTA''] 3) 2)))"
  using adjacency_keys [of 3 "filter_kmers (index_kmers [''ACGTACGTA''] 3) 2" "[''ACGTACGTA'']" 2]
  by (simp add: list_all_iff)

lemma py_slice_prefix: "0 < k \<Longrightarrow> py_slice s 0 (int k - 1) = take (k - 1) s"
  by (cases "k - 1 \<le> length s") (auto simp: py_slice_def py_bound_def nat_diff_distrib')

lemma py_slice_suffix: "length s = k \<Longrightarrow> 0 < k \<Longrightarrow> py_slice s 1 (int k) = tl s"
  by (simp add: py_slice_def py_bound_def drop_Suc)

lemma butlast_take_length: "butlast s = take (length s - 1) s"
  by (simp add: butlast_conv_take)

lemma successors_l_filter:
  "successors_l f w = filter (\<lambda>s. s \<in> set (keys f)) (map (\<lambda>c. tl w @ [c]) ''ACGT'')"
  by (simp add: successors_l_def present_filter Let_def)

lemma predecessors_l_filter:
  "predecessors_l f w = filter (\<lambda>p. p \<in> set (keys f)) (map (\<lambda>c. c # butlast w) ''ACGT'')"
  by (simp add: predecessors_l_def present_filter Let_def)

lemma acgt_set: "set ''ACGT'' = nucleotides"
  by (auto simp: nucleotides_def)

lemma set_successors_l:
  "set (successors_l f w) = {s \<in> (\<lambda>c. tl w @ [c]) ` nucleotides. s \<in> set (keys f)}"
  unfolding successors_l_filter set_filter set_map acgt_set by blast

lemma set_predecessors_l:
  "set (predecessors_l f w) = {p \<in> (\<lambda>c. c # butlast w) ` nucleotides. p \<in> set (keys f)}"
  unfolding predecessors_l_filter set_filter set_map acgt_set by blast

lemma successor_iff:
  assumes "0 < k" and "length w = k" and "length s = k" and "set s \<subseteq> nucleotides"
  shows "s \<in> (\<lambda>c. tl w @ [c]) ` nucleotides \<longleftrightarrow> take (k - 1) s = tl w"
proof
  assume "s \<in> (\<lambda>c. tl w @ [c]) ` nucleotides"
  then obtain c where "s = tl w @ [c]" by auto
  then show "take (k - 1) s = tl w" using assms(2) by simp
next
  assume t: "take (k - 1) s = tl w"
  have ne: "s \<noteq> []" using assms(1,3) by auto
  then have "s = butlast s @ [last s]" by simp
  then have "s = tl w @ [last s]" using t assms(3) by (simp add: butlast_take_length)
  moreover have "last s \<in> nucleotides" using assms(4) last_in_set [OF ne] by blast
  ultimately show "s \<in> (\<lambda>c. tl w @ [c]) ` nucleotides" by (rule image_eqI)
qed

lemma predecessor_iff:
  assumes "0 < k" and "length w = k" and "length p = k" and "set p \<subseteq> nucleotides"
  shows "p \<in> (\<lambda>c. c # butlast w) ` nucleotides \<longleftrightarrow> tl p = butlast w"
proof
  assume "p \<in> (\<lambda>c. c # butlast w) ` nucleotides"
  then obtain c where "p = c # butlast w" by auto
  then show "tl p = butlast w" by simp
next
  assume t: "tl p = butlast w"
  have ne: "p \<noteq> []" using assms(1,3) by auto
  then have "p = hd p # tl p" by simp
  then have "p = hd p # butlast w" using t by simp
  moreover have "hd p \<in> nucleotides" using assms(4) hd_in_set [OF ne] by blast
  ultimately show "p \<in> (\<lambda>c. c # butlast w) ` nucleotides" by (rule image_eqI)
qed

text \<open>
  Claim C2. Let every key of the filtered dict be a string of length \<open>k\<close> over A, C, G,
  T, with \<open>k\<close> positive, and let \<open>w\<close> be a key. Then the index has an entry for \<open>w\<close>;
  its successor list contains \<open>s\<close> exactly when \<open>s\<close> is a key and \<open>s[0:k-1] = w[1:k]\<close>;
  its predecessor list contains \<open>p\<close> exactly when \<open>p\<close> is a key and
  \<open>p[1:k] = w[0:k-1]\<close>; and the two lists are the candidates \<open>w[1:k] + c\<close> and
  \<open>c + w[0:k-1]\<close>, for \<open>c\<close> running through A, C, G, T in this order, that are keys.
\<close>

theorem adjacency_contract:
  assumes "0 < k"
    and "\<forall>v \<in> set (keys f). length v = k \<and> set v \<subseteq> nucleotides"
    and "w \<in> set (keys f)"
  shows "\<exists>e. map_of (predecessors_and_successors f) w = Some e
     \<and> (\<forall>s. s \<in> set (successors e) \<longleftrightarrow>
              s \<in> set (keys f) \<and> py_slice s 0 (int k - 1) = py_slice w 1 (int k))
     \<and> (\<forall>p. p \<in> set (predecessors e) \<longleftrightarrow>
              p \<in> set (keys f) \<and> py_slice p 1 (int k) = py_slice w 0 (int k - 1))
     \<and> successors e
         = filter (\<lambda>s. s \<in> set (keys f)) (map (\<lambda>c. py_slice w 1 (int k) @ [c]) ''ACGT'')
     \<and> predecessors e
         = filter (\<lambda>p. p \<in> set (keys f)) (map (\<lambda>c. c # py_slice w 0 (int k - 1)) ''ACGT'')"
proof -
  have lw: "length w = k" using assms(2,3) by blast
  have w1: "py_slice w 1 (int k) = tl w" using lw assms(1) by (rule py_slice_suffix)
  have w0: "py_slice w 0 (int k - 1) = butlast w"
    using lw assms(1) by (simp add: py_slice_prefix butlast_take_length)
  have m: "map_of (predecessors_and_successors f) w = Some (entry_of f w)"
    using assms(3) by (simp add: map_of_adjacency)
  have se: "successors (entry_of f w) = successors_l f w"
    and pe: "predecessors (entry_of f w) = predecessors_l f w"
    by (simp_all add: entry_of_def)
  have s: "s \<in> set (successors (entry_of f w)) \<longleftrightarrow>
             s \<in> set (keys f) \<and> py_slice s 0 (int k - 1) = py_slice w 1 (int k)" for s
  proof (cases "s \<in> set (keys f)")
    case False
    then show ?thesis unfolding se set_successors_l by blast
  next
    case True
    then have "length s = k" and "set s \<subseteq> nucleotides" using assms(2) by blast+
    from successor_iff [OF assms(1) lw this] True show ?thesis
      unfolding w1 py_slice_prefix [OF assms(1)] se set_successors_l by blast
  qed
  have p: "p \<in> set (predecessors (entry_of f w)) \<longleftrightarrow>
             p \<in> set (keys f) \<and> py_slice p 1 (int k) = py_slice w 0 (int k - 1)" for p
  proof (cases "p \<in> set (keys f)")
    case False
    then show ?thesis unfolding pe set_predecessors_l by blast
  next
    case True
    then have lp: "length p = k" and "set p \<subseteq> nucleotides" using assms(2) by blast+
    from predecessor_iff [OF assms(1) lw this] True show ?thesis
      unfolding w0 py_slice_suffix [OF lp assms(1)] pe set_predecessors_l by blast
  qed
  have so: "successors (entry_of f w)
         = filter (\<lambda>s. s \<in> set (keys f)) (map (\<lambda>c. py_slice w 1 (int k) @ [c]) ''ACGT'')"
    unfolding w1 se by (rule successors_l_filter)
  have po: "predecessors (entry_of f w)
         = filter (\<lambda>p. p \<in> set (keys f)) (map (\<lambda>c. c # py_slice w 0 (int k - 1)) ''ACGT'')"
    unfolding w0 pe by (rule predecessors_l_filter)
  from m s p so po show ?thesis by blast
qed

theorem adjacency_contract_witness:
  "(0::nat) < 3
   \<and> list_all (\<lambda>v. length v = 3 \<and> set v \<subseteq> nucleotides)
         (keys [(''ACG'', 2::int), (''CGT'', 2), (''GTA'', 2)])
   \<and> ''CGT'' \<in> set (keys [(''ACG'', 2::int), (''CGT'', 2), (''GTA'', 2)])
   \<and> (\<exists>e. map_of (predecessors_and_successors [(''ACG'', 2), (''CGT'', 2), (''GTA'', 2)]) ''CGT''
             = Some e
          \<and> (\<forall>s. s \<in> set (successors e) \<longleftrightarrow>
                s \<in> set (keys [(''ACG'', 2::int), (''CGT'', 2), (''GTA'', 2)])
                \<and> py_slice s 0 (int 3 - 1) = py_slice ''CGT'' 1 (int 3))
          \<and> (\<forall>p. p \<in> set (predecessors e) \<longleftrightarrow>
                p \<in> set (keys [(''ACG'', 2::int), (''CGT'', 2), (''GTA'', 2)])
                \<and> py_slice p 1 (int 3) = py_slice ''CGT'' 0 (int 3 - 1))
          \<and> successors e
              = filter (\<lambda>s. s \<in> set (keys [(''ACG'', 2::int), (''CGT'', 2), (''GTA'', 2)]))
                  (map (\<lambda>c. py_slice ''CGT'' 1 (int 3) @ [c]) ''ACGT'')
          \<and> predecessors e
              = filter (\<lambda>p. p \<in> set (keys [(''ACG'', 2::int), (''CGT'', 2), (''GTA'', 2)]))
                  (map (\<lambda>c. c # py_slice ''CGT'' 0 (int 3 - 1)) ''ACGT''))"
proof -
  have h1: "(0::nat) < 3" by simp
  have h2: "\<forall>v \<in> set (keys [(''ACG'', 2::int), (''CGT'', 2), (''GTA'', 2)]).
              length v = 3 \<and> set v \<subseteq> nucleotides"
    by (simp add: keys_def nucleotides_def)
  have h2': "list_all (\<lambda>v. length v = 3 \<and> set v \<subseteq> nucleotides)
               (keys [(''ACG'', 2::int), (''CGT'', 2), (''GTA'', 2)])"
    using h2 unfolding list_all_iff .
  have h3: "''CGT'' \<in> set (keys [(''ACG'', 2::int), (''CGT'', 2), (''GTA'', 2)])"
    by (simp add: keys_def)
  from h1 h2' h3 adjacency_contract [OF h1 h2 h3] show ?thesis by (intro conjI)
qed

section \<open>Sequences that the pattern accepts or rejects\<close>

text \<open>A sequence that the pattern rejects contributes nothing: the result is the one
  for the list without it.\<close>

lemma rejected_sequence_skipped:
  "\<not> pattern_match sequence \<Longrightarrow>
   index_kmers (before @ sequence # after) k = index_kmers (before @ after) k"
  by (simp add: index_kmers_def index_sequence_def)

text \<open>The pattern accepts the non-empty strings over A, C, G, T and also such a string
  followed by one newline.\<close>

lemma pattern_match_iff:
  "pattern_match sequence \<longleftrightarrow>
     (\<exists>t. t \<noteq> [] \<and> set t \<subseteq> nucleotides \<and> (sequence = t \<or> sequence = t @ [CHR ''\<newline>'']))"
proof
  assume "pattern_match sequence"
  then consider "acgt_plus sequence"
    | "sequence \<noteq> []" "last sequence = CHR ''\<newline>''" "acgt_plus (butlast sequence)"
    by (auto simp: pattern_match_def)
  then show "\<exists>t. t \<noteq> [] \<and> set t \<subseteq> nucleotides \<and> (sequence = t \<or> sequence = t @ [CHR ''\<newline>''])"
  proof cases
    case 1
    then show ?thesis by (auto simp: acgt_plus_def)
  next
    case 2
    from 2(1,2) have "sequence = butlast sequence @ [CHR ''\<newline>'']"
      by (metis append_butlast_last_id)
    with 2(3) show ?thesis by (auto simp: acgt_plus_def)
  qed
next
  assume "\<exists>t. t \<noteq> [] \<and> set t \<subseteq> nucleotides \<and> (sequence = t \<or> sequence = t @ [CHR ''\<newline>''])"
  then show "pattern_match sequence"
    by (auto simp: pattern_match_def acgt_plus_def)
qed

text \<open>
  Claim C7, at a sequence with a character outside A, C, G, T that is not rejected. The
  sequence \<open>"ACG\n"\<close> contains a newline, the pattern accepts it, and its windows are
  counted, the one with the newline included; beside another sequence it changes the
  result.
\<close>

theorem newline_sequence_indexed:
  "CHR ''\<newline>'' \<in> set ''ACG\<newline>'' \<and> CHR ''\<newline>'' \<notin> nucleotides
   \<and> pattern_match ''ACG\<newline>''
   \<and> index_kmers [''ACG\<newline>''] 2 = [(''AC'', 1), (''CG'', 1), (''G\<newline>'', 1)]
   \<and> index_kmers [''TTT'', ''ACG\<newline>''] 3 \<noteq> index_kmers [''TTT''] 3"
  by code_simp

section \<open>Sequencing\<close>

lemma then_do_Inl [simp]: "then_do (Inl e) f = Inl e"
  by (simp add: then_do_def)

lemma then_do_Inr [simp]: "then_do (Inr x) f = f x"
  by (simp add: then_do_def)

lemma then_do_eq_Inr: "then_do r f = Inr y \<longleftrightarrow> (\<exists>x. r = Inr x \<and> f x = Inr y)"
  by (cases r) auto

section \<open>States that grow\<close>

lemma extends_refl: "memo_visited st \<Longrightarrow> extends st st"
  by (simp add: extends_def)

lemma extends_trans: "extends st st' \<Longrightarrow> extends st' st'' \<Longrightarrow> extends st st''"
  by (auto simp: extends_def)

lemma extends_memo_visited: "extends st st' \<Longrightarrow> memo_visited st'"
  by (simp add: extends_def)

lemma extends_visit: "memo_visited st \<Longrightarrow> extends st (visit s st)"
  by (auto simp: extends_def memo_visited_def visit_def)

lemma visited_visit [simp]: "visited (visit s st) = insert s (visited st)"
  by (simp add: visit_def)

lemma unvisited_mono: "visited st \<subseteq> visited st' \<Longrightarrow> unvisited idx st' \<le> unvisited idx st"
proof -
  assume sub: "visited st \<subseteq> visited st'"
  have "filter (\<lambda>w. w \<notin> visited st') (keys idx)
          = filter (\<lambda>w. w \<notin> visited st') (filter (\<lambda>w. w \<notin> visited st) (keys idx))"
    using sub by (auto intro: filter_cong)
  then show ?thesis
    unfolding unvisited_def by (metis length_filter_le)
qed

lemma extends_unvisited: "extends st st' \<Longrightarrow> unvisited idx st' \<le> unvisited idx st"
  by (simp add: extends_def unvisited_mono)

lemma unvisited_pos: "w \<in> set (keys idx) \<Longrightarrow> w \<notin> visited st \<Longrightarrow> 0 < unvisited idx st"
  by (auto simp: unvisited_def filter_empty_conv)

lemma unvisited_le_length: "unvisited idx st \<le> length idx"
  by (simp add: unvisited_def keys_def)

section \<open>The two \<open>while\<close> loops\<close>

lemma forward_loop_extends:
  "memo_visited st \<Longrightarrow> forward_loop idx successor contig st = Inr (successor', contig', st')
   \<Longrightarrow> extends st st'"
proof (induction idx successor contig st rule: forward_loop.induct)
  case (1 idx successor contig st)
  note unfold = forward_loop.simps [of idx successor contig st]
  show ?case
  proof (cases "length successor = 1 \<and> hd successor \<notin> visited st")
    case False
    with "1.prems" show ?thesis by (auto simp: unfold extends_refl)
  next
    case True
    with "1.prems"(2) obtain e where ne: "hd successor \<noteq> []"
      and e: "map_of idx (hd successor) = Some e"
      and r: "forward_loop idx (successors e) (contig @ [last (hd successor)])
                (visit (hd successor) st) = Inr (successor', contig', st')"
      by (auto simp: unfold split: if_splits option.splits)
    have v: "extends st (visit (hd successor) st)" using "1.prems"(1) by (rule extends_visit)
    from "1.IH" [OF True ne e extends_memo_visited [OF v] r] v show ?thesis
      by (blast intro: extends_trans)
  qed
qed

lemma backward_loop_extends:
  "memo_visited st \<Longrightarrow> backward_loop idx pre contig st = Inr (pre', contig', st')
   \<Longrightarrow> extends st st'"
proof (induction idx pre contig st rule: backward_loop.induct)
  case (1 idx pre contig st)
  note unfold = backward_loop.simps [of idx pre contig st]
  show ?case
  proof (cases "length pre = 1 \<and> hd pre \<notin> visited st")
    case False
    with "1.prems" show ?thesis by (auto simp: unfold extends_refl)
  next
    case True
    with "1.prems"(2) obtain e where ne: "hd pre \<noteq> []"
      and e: "map_of idx (hd pre) = Some e"
      and r: "backward_loop idx (predecessors e) (hd (hd pre) # contig) (visit (hd pre) st)
                = Inr (pre', contig', st')"
      by (auto simp: unfold split: if_splits option.splits)
    have v: "extends st (visit (hd pre) st)" using "1.prems"(1) by (rule extends_visit)
    from "1.IH" [OF True ne e extends_memo_visited [OF v] r] v show ?thesis
      by (blast intro: extends_trans)
  qed
qed

lemma nodes_hd: "nodes idx ss \<Longrightarrow> length ss = 1 \<Longrightarrow> hd ss \<noteq> [] \<and> hd ss \<in> set (keys idx)"
  by (cases ss) (auto simp: nodes_def)

lemma forward_loop_returns:
  "closed_index idx \<Longrightarrow> nodes idx successor \<Longrightarrow>
   \<exists>successor' contig' st'.
     forward_loop idx successor contig st = Inr (successor', contig', st') \<and> nodes idx successor'"
proof (induction idx successor contig st rule: forward_loop.induct)
  case (1 idx successor contig st)
  note unfold = forward_loop.simps [of idx successor contig st]
  show ?case
  proof (cases "length successor = 1 \<and> hd successor \<notin> visited st")
    case False
    with "1.prems" show ?thesis by (auto simp: unfold)
  next
    case True
    from nodes_hd [OF "1.prems"(2)] True have ne: "hd successor \<noteq> []"
      and k: "hd successor \<in> set (keys idx)" by auto
    from k obtain e where e: "map_of idx (hd successor) = Some e"
      by (auto simp: in_keys_iff)
    from "1.prems"(1) e have "nodes idx (successors e)" by (auto simp: closed_index_def)
    from "1.IH" [OF True ne e "1.prems"(1) this] True ne e show ?thesis by (simp add: unfold)
  qed
qed

lemma backward_loop_returns:
  "closed_index idx \<Longrightarrow> nodes idx pre \<Longrightarrow>
   \<exists>pre' contig' st'.
     backward_loop idx pre contig st = Inr (pre', contig', st') \<and> nodes idx pre'"
proof (induction idx pre contig st rule: backward_loop.induct)
  case (1 idx pre contig st)
  note unfold = backward_loop.simps [of idx pre contig st]
  show ?case
  proof (cases "length pre = 1 \<and> hd pre \<notin> visited st")
    case False
    with "1.prems" show ?thesis by (auto simp: unfold)
  next
    case True
    from nodes_hd [OF "1.prems"(2)] True have ne: "hd pre \<noteq> []"
      and k: "hd pre \<in> set (keys idx)" by auto
    from k obtain e where e: "map_of idx (hd pre) = Some e"
      by (auto simp: in_keys_iff)
    from "1.prems"(1) e have "nodes idx (predecessors e)" by (auto simp: closed_index_def)
    from "1.IH" [OF True ne e "1.prems"(1) this] True ne e show ?thesis by (simp add: unfold)
  qed
qed

section \<open>The two branch resolutions\<close>

text \<open>An invariant of the state that every recursive call keeps is kept by the loop.\<close>

lemma forward_branch_keeps:
  assumes "\<And>s st c st'. s \<in> set ss \<Longrightarrow> s \<notin> visited st \<Longrightarrow> I st
             \<Longrightarrow> build s st = Inr (c, st') \<Longrightarrow> I st'"
    and "I st" and "forward_branch build ss best st = Inr (c, st')"
  shows "I st'"
  using assms
proof (induction ss arbitrary: best st)
  case Nil
  then show ?case by simp
next
  case (Cons s ss)
  have step: "\<And>s' st c st'. s' \<in> set ss \<Longrightarrow> s' \<notin> visited st \<Longrightarrow> I st
                \<Longrightarrow> build s' st = Inr (c, st') \<Longrightarrow> I st'"
    using Cons.prems(1) by (meson list.set_intros(2))
  show ?case
  proof (cases "s \<in> visited st")
    case True
    with Cons.prems(3) have "forward_branch build ss best st = Inr (c, st')" by simp
    from Cons.IH [OF step Cons.prems(2) this] show ?thesis .
  next
    case False
    with Cons.prems(3) obtain c1 st1 where b: "build s st = Inr (c1, st1)"
      and r: "forward_branch build ss (if length c1 > length best then c1 else best) st1
                = Inr (c, st')"
      by (auto split: sum.splits)
    have "I st1" using Cons.prems(1) [OF _ False Cons.prems(2) b] by simp
    from Cons.IH [OF step this r] show ?thesis .
  qed
qed

lemma forward_branch_returns:
  assumes "\<And>s st. s \<in> set ss \<Longrightarrow> s \<notin> visited st \<Longrightarrow> I st
             \<Longrightarrow> \<exists>c st'. build s st = Inr (c, st') \<and> I st'"
    and "I st"
  shows "\<exists>c st'. forward_branch build ss best st = Inr (c, st') \<and> I st'"
  using assms
proof (induction ss arbitrary: best st)
  case Nil
  then show ?case by simp
next
  case (Cons s ss)
  have step: "\<And>s' st. s' \<in> set ss \<Longrightarrow> s' \<notin> visited st \<Longrightarrow> I st
                \<Longrightarrow> \<exists>c st'. build s' st = Inr (c, st') \<and> I st'"
    using Cons.prems(1) by simp
  show ?case
  proof (cases "s \<in> visited st")
    case True
    with Cons.IH [OF step Cons.prems(2)] show ?thesis by simp
  next
    case False
    from Cons.prems(1) [OF _ False Cons.prems(2)]
    obtain c1 st1 where b: "build s st = Inr (c1, st1)" and i: "I st1" by auto
    from Cons.IH [OF step i] False b show ?thesis by simp
  qed
qed

lemma backward_branch_keeps:
  assumes "\<And>p st c st'. p \<in> set ps \<Longrightarrow> p \<notin> visited st \<Longrightarrow> I st
             \<Longrightarrow> build p st = Inr (c, st') \<Longrightarrow> I st'"
    and "I st" and "backward_branch build ps contig best st = Inr (c, st')"
  shows "I st'"
  using assms
proof (induction ps arbitrary: best st)
  case Nil
  then show ?case by simp
next
  case (Cons p ps)
  have step: "\<And>p' st c st'. p' \<in> set ps \<Longrightarrow> p' \<notin> visited st \<Longrightarrow> I st
                \<Longrightarrow> build p' st = Inr (c, st') \<Longrightarrow> I st'"
    using Cons.prems(1) by (meson list.set_intros(2))
  show ?case
  proof (cases "p \<in> visited st")
    case True
    with Cons.prems(3) have "backward_branch build ps contig best st = Inr (c, st')" by simp
    from Cons.IH [OF step Cons.prems(2) this] show ?thesis .
  next
    case False
    with Cons.prems(3) obtain c1 st1 where b: "build p st = Inr (c1, st1)"
      and r: "backward_branch build ps contig
                (if length (c1 @ contig) > length best then c1 @ contig else best) st1
                = Inr (c, st')"
      by (auto split: sum.splits)
    have "I st1" using Cons.prems(1) [OF _ False Cons.prems(2) b] by simp
    from Cons.IH [OF step this r] show ?thesis .
  qed
qed

lemma backward_branch_returns:
  assumes "\<And>p st. p \<in> set ps \<Longrightarrow> p \<notin> visited st \<Longrightarrow> I st
             \<Longrightarrow> \<exists>c st'. build p st = Inr (c, st') \<and> I st'"
    and "I st"
  shows "\<exists>c st'. backward_branch build ps contig best st = Inr (c, st') \<and> I st'"
  using assms
proof (induction ps arbitrary: best st)
  case Nil
  then show ?case by simp
next
  case (Cons p ps)
  have step: "\<And>p' st. p' \<in> set ps \<Longrightarrow> p' \<notin> visited st \<Longrightarrow> I st
                \<Longrightarrow> \<exists>c st'. build p' st = Inr (c, st') \<and> I st'"
    using Cons.prems(1) by simp
  show ?case
  proof (cases "p \<in> visited st")
    case True
    with Cons.IH [OF step Cons.prems(2)] show ?thesis by simp
  next
    case False
    from Cons.prems(1) [OF _ False Cons.prems(2)]
    obtain c1 st1 where b: "build p st = Inr (c1, st1)" and i: "I st1" by auto
    from Cons.IH [OF step i] False b show ?thesis by simp
  qed
qed

lemma forward_resolution_keeps:
  assumes "\<And>s st c st'. s \<in> set successor \<Longrightarrow> s \<notin> visited st \<Longrightarrow> I st
             \<Longrightarrow> build s st = Inr (c, st') \<Longrightarrow> I st'"
    and "I st" and "forward_resolution build successor contig st = Inr (c, st')"
  shows "I st'"
proof (cases "length successor > 1")
  case True
  with assms(3) have "forward_branch build successor contig st = Inr (c, st')"
    by (simp add: forward_resolution_def)
  from forward_branch_keeps [of successor I build, OF assms(1,2) this] show ?thesis .
next
  case False
  with assms(2,3) show ?thesis by (simp add: forward_resolution_def)
qed

lemma forward_resolution_returns:
  assumes "\<And>s st. s \<in> set successor \<Longrightarrow> s \<notin> visited st \<Longrightarrow> I st
             \<Longrightarrow> \<exists>c st'. build s st = Inr (c, st') \<and> I st'"
    and "I st"
  shows "\<exists>c st'. forward_resolution build successor contig st = Inr (c, st') \<and> I st'"
proof (cases "length successor > 1")
  case True
  with forward_branch_returns [of successor I build, OF assms] show ?thesis
    by (simp add: forward_resolution_def)
next
  case False
  with assms(2) show ?thesis by (simp add: forward_resolution_def)
qed

lemma backward_resolution_keeps:
  assumes "\<And>p st c st'. p \<in> set pre \<Longrightarrow> p \<notin> visited st \<Longrightarrow> I st
             \<Longrightarrow> build p st = Inr (c, st') \<Longrightarrow> I st'"
    and "I st" and "backward_resolution build pre contig st = Inr (c, st')"
  shows "I st'"
proof (cases "length pre > 1")
  case True
  with assms(3) have "backward_branch build pre contig contig st = Inr (c, st')"
    by (simp add: backward_resolution_def)
  from backward_branch_keeps [of pre I build, OF assms(1,2) this] show ?thesis .
next
  case False
  with assms(2,3) show ?thesis by (simp add: backward_resolution_def)
qed

lemma backward_resolution_returns:
  assumes "\<And>p st. p \<in> set pre \<Longrightarrow> p \<notin> visited st \<Longrightarrow> I st
             \<Longrightarrow> \<exists>c st'. build p st = Inr (c, st') \<and> I st'"
    and "I st"
  shows "\<exists>c st'. backward_resolution build pre contig st = Inr (c, st') \<and> I st'"
proof (cases "length pre > 1")
  case True
  with backward_branch_returns [of pre I build, OF assms] show ?thesis
    by (simp add: backward_resolution_def)
next
  case False
  with assms(2) show ?thesis by (simp add: backward_resolution_def)
qed

section \<open>\<open>build_contig\<close>\<close>

lemma enter_unvisited: "w \<notin> visited st \<Longrightarrow> enter w st = st"
  by (simp add: enter_def)

lemma no_memo: "memo_visited st \<Longrightarrow> w \<notin> visited st \<Longrightarrow> map_of (contig_dict st) w = None"
  using in_keys_iff [of w "contig_dict st"] by (auto simp: memo_visited_def)

text \<open>The steps of a call that returns, for a k-mer that is not visited and not in the memo.\<close>

lemma build_contig_steps:
  assumes "memo_visited st" and "w \<notin> visited st"
    and "build_contig idx (Suc fuel) w st = Inr (c, st')"
  obtains e successor contig1 st1 contig2 st2 pre contig3 st3 st4 where
    "map_of idx w = Some e"
    "forward_loop idx (successors e) w (visit w st) = Inr (successor, contig1, st1)"
    "forward_resolution (build_contig idx fuel) successor contig1 st1 = Inr (contig2, st2)"
    "backward_loop idx (predecessors e) contig2 st2 = Inr (pre, contig3, st3)"
    "backward_resolution (build_contig idx fuel) pre contig3 st3 = Inr (c, st4)"
    "st' = st4\<lparr>contig_dict := dict_set (contig_dict st4) w c\<rparr>"
proof -
  from assms(3) obtain e where e: "map_of idx w = Some e"
    by (simp add: enter_unvisited [OF assms(2)] no_memo [OF assms(1,2)] split: option.splits)
  from assms(3) have *: "then_do (forward_loop idx (successors e) w (visit w st))
                 (\<lambda>(successor, contig, st1).
               then_do (forward_resolution (build_contig idx fuel) successor contig st1)
                 (\<lambda>(contig, st2).
               then_do (backward_loop idx (predecessors e) contig st2)
                 (\<lambda>(pre, contig, st3).
               then_do (backward_resolution (build_contig idx fuel) pre contig st3)
                 (\<lambda>(contig, st4).
               Inr (contig, st4\<lparr>contig_dict := dict_set (contig_dict st4) w contig\<rparr>)))))
            = Inr (c, st')"
    by (simp add: enter_unvisited [OF assms(2)] no_memo [OF assms(1,2)] e)
  then obtain successor contig1 st1 where
    fl: "forward_loop idx (successors e) w (visit w st) = Inr (successor, contig1, st1)"
    and r1: "then_do (forward_resolution (build_contig idx fuel) successor contig1 st1)
                 (\<lambda>(contig, st2).
               then_do (backward_loop idx (predecessors e) contig st2)
                 (\<lambda>(pre, contig, st3).
               then_do (backward_resolution (build_contig idx fuel) pre contig st3)
                 (\<lambda>(contig, st4).
               Inr (contig, st4\<lparr>contig_dict := dict_set (contig_dict st4) w contig\<rparr>))))
            = Inr (c, st')"
    unfolding then_do_eq_Inr [of "forward_loop idx (successors e) w (visit w st)"] by auto
  then obtain contig2 st2 where
    fr: "forward_resolution (build_contig idx fuel) successor contig1 st1 = Inr (contig2, st2)"
    and r2: "then_do (backward_loop idx (predecessors e) contig2 st2)
                 (\<lambda>(pre, contig, st3).
               then_do (backward_resolution (build_contig idx fuel) pre contig st3)
                 (\<lambda>(contig, st4).
               Inr (contig, st4\<lparr>contig_dict := dict_set (contig_dict st4) w contig\<rparr>)))
            = Inr (c, st')"
    unfolding then_do_eq_Inr [of "forward_resolution (build_contig idx fuel) successor contig1 st1"]
    by auto
  then obtain pre contig3 st3 where
    bl: "backward_loop idx (predecessors e) contig2 st2 = Inr (pre, contig3, st3)"
    and r3: "then_do (backward_resolution (build_contig idx fuel) pre contig3 st3)
                 (\<lambda>(contig, st4).
               Inr (contig, st4\<lparr>contig_dict := dict_set (contig_dict st4) w contig\<rparr>))
            = Inr (c, st')"
    unfolding then_do_eq_Inr [of "backward_loop idx (predecessors e) contig2 st2"] by auto
  then obtain st4 where
    br: "backward_resolution (build_contig idx fuel) pre contig3 st3 = Inr (c, st4)"
    and s: "st' = st4\<lparr>contig_dict := dict_set (contig_dict st4) w c\<rparr>"
    unfolding then_do_eq_Inr [of "backward_resolution (build_contig idx fuel) pre contig3 st3"]
    by auto
  from e fl fr bl br s show ?thesis by (rule that)
qed

lemma extends_store:
  assumes "extends st st4" and "w \<in> visited st4"
  shows "extends st (st4\<lparr>contig_dict := dict_set (contig_dict st4) w c\<rparr>)"
  using assms by (auto simp: extends_def memo_visited_def set_keys_dict_set)

lemma extends_visited: "extends st st' \<Longrightarrow> w \<in> visited st \<Longrightarrow> w \<in> visited st'"
  by (auto simp: extends_def)

lemma build_contig_extends:
  "memo_visited st \<Longrightarrow> w \<notin> visited st \<Longrightarrow> build_contig idx fuel w st = Inr (c, st')
   \<Longrightarrow> extends st st' \<and> w \<in> visited st'"
proof (induction fuel arbitrary: w st c st')
  case 0
  then show ?case by simp
next
  case (Suc fuel)
  from Suc.prems obtain e successor contig1 st1 contig2 st2 pre contig3 st3 st4 where
    e: "map_of idx w = Some e"
    and fl: "forward_loop idx (successors e) w (visit w st) = Inr (successor, contig1, st1)"
    and fr: "forward_resolution (build_contig idx fuel) successor contig1 st1 = Inr (contig2, st2)"
    and bl: "backward_loop idx (predecessors e) contig2 st2 = Inr (pre, contig3, st3)"
    and br: "backward_resolution (build_contig idx fuel) pre contig3 st3 = Inr (c, st4)"
    and s: "st' = st4\<lparr>contig_dict := dict_set (contig_dict st4) w c\<rparr>"
    by (rule build_contig_steps)
  have rec: "extends a st'"
    if "extends a st" and "s \<notin> visited st" and "build_contig idx fuel s st = Inr (c, st')"
    for a s st c st'
    using Suc.IH [OF extends_memo_visited [OF that(1)] that(2,3)] that(1)
    by (blast intro: extends_trans)
  have x0: "extends st (visit w st)" using Suc.prems(1) by (rule extends_visit)
  have x1: "extends (visit w st) st1"
    using extends_memo_visited [OF x0] fl by (rule forward_loop_extends)
  have x2: "extends st1 st2"
  proof (rule forward_resolution_keeps [where I = "extends st1", OF _ _ fr])
    show "extends st1 st1" by (rule extends_refl [OF extends_memo_visited [OF x1]])
  next
    fix s a c b
    assume "s \<notin> visited a" and "extends st1 a" and "build_contig idx fuel s a = Inr (c, b)"
    then show "extends st1 b" using rec by blast
  qed
  have x3: "extends st2 st3"
    using extends_memo_visited [OF x2] bl by (rule backward_loop_extends)
  have x4: "extends st3 st4"
  proof (rule backward_resolution_keeps [where I = "extends st3", OF _ _ br])
    show "extends st3 st3" by (rule extends_refl [OF extends_memo_visited [OF x3]])
  next
    fix p a c b
    assume "p \<notin> visited a" and "extends st3 a" and "build_contig idx fuel p a = Inr (c, b)"
    then show "extends st3 b" using rec by blast
  qed
  have x: "extends (visit w st) st4" using x1 x2 x3 x4 by (blast intro: extends_trans)
  then have w: "w \<in> visited st4" by (rule extends_visited) simp
  from x0 x have "extends st st4" by (rule extends_trans)
  then have "extends st st'" unfolding s using w by (rule extends_store)
  moreover have "w \<in> visited st'" using w by (simp add: s)
  ultimately show ?case ..
qed

lemma build_contig_returns:
  "closed_index idx \<Longrightarrow> memo_visited st \<Longrightarrow> w \<in> set (keys idx) \<Longrightarrow> w \<notin> visited st
   \<Longrightarrow> unvisited idx st \<le> fuel \<Longrightarrow> \<exists>c st'. build_contig idx fuel w st = Inr (c, st')"
proof (induction fuel arbitrary: w st)
  case 0
  with unvisited_pos [of w idx st] show ?case by simp
next
  case (Suc fuel)
  define I where "I a \<longleftrightarrow> memo_visited a \<and> unvisited idx a \<le> fuel" for a
  have grow: "I b" if "I a" and "extends a b" for a b
    using that extends_unvisited [of a b idx] by (auto simp: I_def extends_def)
  have rec: "\<exists>c b. build_contig idx fuel s a = Inr (c, b) \<and> I b"
    if "nodes idx ss" and "s \<in> set ss" and "s \<notin> visited a" and "I a" for ss s a
  proof -
    from that(1,2) have k: "s \<in> set (keys idx)" by (simp add: nodes_def)
    from that(4) have m: "memo_visited a" and u: "unvisited idx a \<le> fuel"
      by (simp_all add: I_def)
    from Suc.IH [OF Suc.prems(1) m k that(3) u]
    obtain c b where r: "build_contig idx fuel s a = Inr (c, b)" by blast
    from build_contig_extends [OF m that(3) r] have "extends a b" ..
    with that(4) have "I b" by (rule grow)
    with r show ?thesis by blast
  qed
  from Suc.prems(3) obtain e where e: "map_of idx w = Some e" by (auto simp: in_keys_iff)
  from Suc.prems(1) e have ns: "nodes idx (successors e)" and np: "nodes idx (predecessors e)"
    by (auto simp: closed_index_def)
  have x0: "extends st (visit w st)" using Suc.prems(2) by (rule extends_visit)
  have i0: "I (visit w st)"
    using unvisited_visit_less [OF e Suc.prems(4)] Suc.prems(5) extends_memo_visited [OF x0]
    by (simp add: I_def)
  from forward_loop_returns [OF Suc.prems(1) ns, of w "visit w st"]
  obtain successor contig1 st1 where
    fl: "forward_loop idx (successors e) w (visit w st) = Inr (successor, contig1, st1)"
    and n1: "nodes idx successor" by blast
  have i1: "I st1"
    using i0 forward_loop_extends [OF extends_memo_visited [OF x0] fl] by (rule grow)
  from forward_resolution_returns [of successor I "build_contig idx fuel" st1 contig1,
      OF rec [OF n1] i1]
  obtain contig2 st2 where
    fr: "forward_resolution (build_contig idx fuel) successor contig1 st1 = Inr (contig2, st2)"
    and i2: "I st2" by blast
  from backward_loop_returns [OF Suc.prems(1) np, of contig2 st2]
  obtain pre contig3 st3 where
    bl: "backward_loop idx (predecessors e) contig2 st2 = Inr (pre, contig3, st3)"
    and n3: "nodes idx pre" by blast
  have m2: "memo_visited st2" using i2 by (simp add: I_def)
  have i3: "I st3" using i2 backward_loop_extends [OF m2 bl] by (rule grow)
  from backward_resolution_returns [of pre I "build_contig idx fuel" st3 contig3,
      OF rec [OF n3] i3]
  obtain c st4 where
    br: "backward_resolution (build_contig idx fuel) pre contig3 st3 = Inr (c, st4)" by blast
  have "build_contig idx (Suc fuel) w st
          = Inr (c, st4\<lparr>contig_dict := dict_set (contig_dict st4) w c\<rparr>)"
    by (simp add: enter_unvisited [OF Suc.prems(4)] no_memo [OF Suc.prems(2,4)] e fl fr bl br)
  then show ?case by blast
qed

section \<open>The loop of \<open>simple_path\<close>\<close>

lemma start_loop_extends:
  "memo_visited st \<Longrightarrow> start_loop idx fuel ws list_contig st = Inr (cs, st')
   \<Longrightarrow> extends st st'"
proof (induction ws arbitrary: list_contig st)
  case Nil
  then show ?case by (simp add: extends_refl)
next
  case (Cons w ws)
  show ?case
  proof (cases "w \<in> visited st")
    case True
    with Cons.prems(2) have "start_loop idx fuel ws list_contig st = Inr (cs, st')" by simp
    from Cons.IH [OF Cons.prems(1) this] show ?thesis .
  next
    case False
    with Cons.prems(2) obtain c st1 where b: "build_contig idx fuel w st = Inr (c, st1)"
      and r: "start_loop idx fuel ws (list_contig @ [c]) st1 = Inr (cs, st')"
      by (auto split: sum.splits)
    from build_contig_extends [OF Cons.prems(1) False b] have x: "extends st st1" ..
    from Cons.IH [OF extends_memo_visited [OF x] r] x show ?thesis
      by (blast intro: extends_trans)
  qed
qed

lemma start_loop_returns:
  "closed_index idx \<Longrightarrow> memo_visited st \<Longrightarrow> set ws \<subseteq> set (keys idx) \<Longrightarrow> length idx \<le> fuel
   \<Longrightarrow> \<exists>cs st'. start_loop idx fuel ws list_contig st = Inr (cs, st')"
proof (induction ws arbitrary: list_contig st)
  case Nil
  then show ?case by simp
next
  case (Cons w ws)
  from Cons.prems(3) have k: "w \<in> set (keys idx)" and ks: "set ws \<subseteq> set (keys idx)" by auto
  show ?case
  proof (cases "w \<in> visited st")
    case True
    with Cons.IH [OF Cons.prems(1,2) ks Cons.prems(4)] show ?thesis by simp
  next
    case False
    have "unvisited idx st \<le> fuel"
      using unvisited_le_length [of idx st] Cons.prems(4) by simp
    from build_contig_returns [OF Cons.prems(1,2) k False this]
    obtain c st1 where b: "build_contig idx fuel w st = Inr (c, st1)" by blast
    from build_contig_extends [OF Cons.prems(2) False b] have "extends st st1" ..
    then have "memo_visited st1" by (rule extends_memo_visited)
    from Cons.IH [OF Cons.prems(1) this ks Cons.prems(4)] False b show ?thesis by simp
  qed
qed

lemma memo_visited_initial: "memo_visited initial"
  by (simp add: memo_visited_def initial_def keys_def)

lemma simple_path_run_returns:
  "closed_index idx \<Longrightarrow> \<exists>cs st. simple_path_run idx = Inr (cs, st)"
  unfolding simple_path_run_def
  by (rule start_loop_returns [OF _ memo_visited_initial]) simp_all

lemma simple_path_returns: "closed_index idx \<Longrightarrow> \<exists>cs. simple_path idx = Inr cs"
  using simple_path_run_returns [of idx] by (auto simp: simple_path_def)

section \<open>The index of \<open>predecessors_and_successors\<close> is closed\<close>

lemma closed_adjacency: "closed_index (predecessors_and_successors f)"
proof -
  have "nodes (predecessors_and_successors f) (successors (entry_of f w))"
    and "nodes (predecessors_and_successors f) (predecessors (entry_of f w))" for w
    by (auto simp: nodes_def set_keys_adjacency entry_of_def set_successors_l set_predecessors_l)
  then show ?thesis
    by (auto simp: closed_index_def map_of_adjacency split: if_splits)
qed

text \<open>Where the recursion limit is not reached, the whole pipeline returns a list of
  contigs on every input: no lookup fails, no character is taken from an empty string, and
  the budget is not used up.\<close>

lemma pipeline_returns: "\<exists>cs. pipeline sequences k threshold = Inr cs"
  unfolding pipeline_def by (rule simple_path_returns [OF closed_adjacency])

section \<open>The budget is never used up\<close>

text \<open>On every index, also one with dangling successors, a run of \<open>simple_path\<close> ends
  with a list of contigs, a KeyError or an IndexError: \<open>OutOfFuel\<close> is never its answer.\<close>

lemma forward_loop_no_fuel: "forward_loop idx successor contig st \<noteq> Inl OutOfFuel"
proof (induction idx successor contig st rule: forward_loop.induct)
  case (1 idx successor contig st)
  then show ?case
    by (subst forward_loop.simps) (auto split: option.splits)
qed

lemma backward_loop_no_fuel: "backward_loop idx pre contig st \<noteq> Inl OutOfFuel"
proof (induction idx pre contig st rule: backward_loop.induct)
  case (1 idx pre contig st)
  then show ?case
    by (subst backward_loop.simps) (auto split: option.splits)
qed

lemma forward_branch_no_fuel:
  assumes "\<And>s st. s \<in> set ss \<Longrightarrow> s \<notin> visited st \<Longrightarrow> I st \<Longrightarrow> build s st \<noteq> Inl OutOfFuel"
    and "\<And>s st c st'. s \<in> set ss \<Longrightarrow> s \<notin> visited st \<Longrightarrow> I st
           \<Longrightarrow> build s st = Inr (c, st') \<Longrightarrow> I st'"
    and "I st"
  shows "forward_branch build ss best st \<noteq> Inl OutOfFuel"
  using assms
proof (induction ss arbitrary: best st)
  case Nil
  show ?case by simp
next
  case (Cons s ss)
  have nf: "\<And>s' st. s' \<in> set ss \<Longrightarrow> s' \<notin> visited st \<Longrightarrow> I st \<Longrightarrow> build s' st \<noteq> Inl OutOfFuel"
    using Cons.prems(1) by (meson list.set_intros(2))
  have step: "\<And>s' st c st'. s' \<in> set ss \<Longrightarrow> s' \<notin> visited st \<Longrightarrow> I st
                \<Longrightarrow> build s' st = Inr (c, st') \<Longrightarrow> I st'"
    using Cons.prems(2) by (meson list.set_intros(2))
  show ?case
  proof (cases "s \<in> visited st")
    case True
    with Cons.IH [OF nf step Cons.prems(3)] show ?thesis by simp
  next
    case False
    show ?thesis
    proof (cases "build s st")
      case (Inl err)
      with Cons.prems(1) [OF _ False Cons.prems(3)] False show ?thesis by auto
    next
      case (Inr r)
      obtain c st1 where r: "r = (c, st1)" by (cases r)
      have "I st1" using Cons.prems(2) [OF _ False Cons.prems(3)] Inr r by simp
      from Cons.IH [OF nf step this] False Inr r show ?thesis by simp
    qed
  qed
qed

lemma backward_branch_no_fuel:
  assumes "\<And>p st. p \<in> set ps \<Longrightarrow> p \<notin> visited st \<Longrightarrow> I st \<Longrightarrow> build p st \<noteq> Inl OutOfFuel"
    and "\<And>p st c st'. p \<in> set ps \<Longrightarrow> p \<notin> visited st \<Longrightarrow> I st
           \<Longrightarrow> build p st = Inr (c, st') \<Longrightarrow> I st'"
    and "I st"
  shows "backward_branch build ps contig best st \<noteq> Inl OutOfFuel"
  using assms
proof (induction ps arbitrary: best st)
  case Nil
  show ?case by simp
next
  case (Cons p ps)
  have nf: "\<And>p' st. p' \<in> set ps \<Longrightarrow> p' \<notin> visited st \<Longrightarrow> I st \<Longrightarrow> build p' st \<noteq> Inl OutOfFuel"
    using Cons.prems(1) by (meson list.set_intros(2))
  have step: "\<And>p' st c st'. p' \<in> set ps \<Longrightarrow> p' \<notin> visited st \<Longrightarrow> I st
                \<Longrightarrow> build p' st = Inr (c, st') \<Longrightarrow> I st'"
    using Cons.prems(2) by (meson list.set_intros(2))
  show ?case
  proof (cases "p \<in> visited st")
    case True
    with Cons.IH [OF nf step Cons.prems(3)] show ?thesis by simp
  next
    case False
    show ?thesis
    proof (cases "build p st")
      case (Inl err)
      with Cons.prems(1) [OF _ False Cons.prems(3)] False show ?thesis by auto
    next
      case (Inr r)
      obtain c st1 where r: "r = (c, st1)" by (cases r)
      have "I st1" using Cons.prems(2) [OF _ False Cons.prems(3)] Inr r by simp
      from Cons.IH [OF nf step this] False Inr r show ?thesis by simp
    qed
  qed
qed

lemma build_contig_no_fuel:
  "memo_visited st \<Longrightarrow> w \<notin> visited st \<Longrightarrow> unvisited idx st < fuel
   \<Longrightarrow> build_contig idx fuel w st \<noteq> Inl OutOfFuel"
proof (induction fuel arbitrary: w st)
  case 0
  then show ?case by simp
next
  case (Suc fuel)
  define I where "I a \<longleftrightarrow> memo_visited a \<and> unvisited idx a < fuel" for a
  have grow: "I b" if "I a" and "extends a b" for a b
    using that extends_unvisited [of a b idx] by (auto simp: I_def extends_def)
  have nf: "build_contig idx fuel s a \<noteq> Inl OutOfFuel" if "s \<notin> visited a" and "I a" for s a
    using Suc.IH [of a s] that by (simp add: I_def)
  have step: "I b" if "s \<notin> visited a" and "I a" and "build_contig idx fuel s a = Inr (c, b)"
    for s a c b
  proof -
    from that(2) have "memo_visited a" by (simp add: I_def)
    from build_contig_extends [OF this that(1,3)] have "extends a b" ..
    with that(2) show ?thesis by (rule grow)
  qed
  note unfold = enter_unvisited [OF Suc.prems(2)] no_memo [OF Suc.prems(1,2)]
  show ?case
  proof (cases "map_of idx w")
    case None
    then show ?thesis by (simp add: unfold)
  next
    case (Some e)
    have x0: "extends st (visit w st)" using Suc.prems(1) by (rule extends_visit)
    have i0: "I (visit w st)"
      using unvisited_visit_less [OF Some Suc.prems(2)] Suc.prems(3) extends_memo_visited [OF x0]
      by (simp add: I_def)
    show ?thesis
    proof (cases "forward_loop idx (successors e) w (visit w st)")
      case (Inl err)
      with forward_loop_no_fuel [of idx "successors e" w "visit w st"] Some
      show ?thesis by (simp add: unfold)
    next
      case (Inr r1)
      obtain successor contig1 st1 where r1: "r1 = (successor, contig1, st1)" by (cases r1)
      have fl: "forward_loop idx (successors e) w (visit w st) = Inr (successor, contig1, st1)"
        using Inr r1 by simp
      have i1: "I st1"
        using i0 forward_loop_extends [OF extends_memo_visited [OF x0] fl] by (rule grow)
      show ?thesis
      proof (cases "forward_resolution (build_contig idx fuel) successor contig1 st1")
        case (Inl err)
        have "forward_branch (build_contig idx fuel) successor contig1 st1 \<noteq> Inl OutOfFuel"
        proof (rule forward_branch_no_fuel [where I = I])
          show "I st1" by (rule i1)
        next
          fix s a
          assume "s \<notin> visited a" and "I a"
          then show "build_contig idx fuel s a \<noteq> Inl OutOfFuel" by (rule nf)
        next
          fix s a c b
          assume "s \<notin> visited a" and "I a" and "build_contig idx fuel s a = Inr (c, b)"
          then show "I b" by (rule step)
        qed
        then have "forward_resolution (build_contig idx fuel) successor contig1 st1
                     \<noteq> Inl OutOfFuel"
          by (simp add: forward_resolution_def)
        with Inl Some fl show ?thesis by (simp add: unfold)
      next
        case (Inr r2)
        obtain contig2 st2 where r2: "r2 = (contig2, st2)" by (cases r2)
        have fr: "forward_resolution (build_contig idx fuel) successor contig1 st1
                    = Inr (contig2, st2)"
          using Inr r2 by simp
        have i2: "I st2"
          by (rule forward_resolution_keeps [where I = I, OF _ i1 fr]) (rule step)
        then have m2: "memo_visited st2" by (simp add: I_def)
        show ?thesis
        proof (cases "backward_loop idx (predecessors e) contig2 st2")
          case (Inl err)
          with backward_loop_no_fuel [of idx "predecessors e" contig2 st2] Some fl fr
          show ?thesis by (simp add: unfold)
        next
          case (Inr r3)
          obtain pre contig3 st3 where r3: "r3 = (pre, contig3, st3)" by (cases r3)
          have bl: "backward_loop idx (predecessors e) contig2 st2 = Inr (pre, contig3, st3)"
            using Inr r3 by simp
          have i3: "I st3" using i2 backward_loop_extends [OF m2 bl] by (rule grow)
          have "backward_branch (build_contig idx fuel) pre contig3 contig3 st3
                  \<noteq> Inl OutOfFuel"
          proof (rule backward_branch_no_fuel [where I = I])
            show "I st3" by (rule i3)
          next
            fix p a
            assume "p \<notin> visited a" and "I a"
            then show "build_contig idx fuel p a \<noteq> Inl OutOfFuel" by (rule nf)
          next
            fix p a c b
            assume "p \<notin> visited a" and "I a" and "build_contig idx fuel p a = Inr (c, b)"
            then show "I b" by (rule step)
          qed
          then have nb: "backward_resolution (build_contig idx fuel) pre contig3 st3
                       \<noteq> Inl OutOfFuel"
            by (simp add: backward_resolution_def)
          show ?thesis
          proof (cases "backward_resolution (build_contig idx fuel) pre contig3 st3")
            case (Inl err)
            with nb Some fl fr bl show ?thesis by (simp add: unfold)
          next
            case (Inr r4)
            obtain c st4 where "r4 = (c, st4)" by (cases r4)
            with Inr Some fl fr bl show ?thesis by (simp add: unfold)
          qed
        qed
      qed
    qed
  qed
qed

lemma start_loop_no_fuel:
  "memo_visited st \<Longrightarrow> length idx < fuel
   \<Longrightarrow> start_loop idx fuel ws list_contig st \<noteq> Inl OutOfFuel"
proof (induction ws arbitrary: list_contig st)
  case Nil
  show ?case by simp
next
  case (Cons w ws)
  show ?case
  proof (cases "w \<in> visited st")
    case True
    with Cons.IH [OF Cons.prems] show ?thesis by simp
  next
    case False
    have u: "unvisited idx st < fuel"
      using unvisited_le_length [of idx st] Cons.prems(2) by simp
    show ?thesis
    proof (cases "build_contig idx fuel w st")
      case (Inl err)
      with build_contig_no_fuel [OF Cons.prems(1) False u] False show ?thesis by auto
    next
      case (Inr r)
      obtain c st1 where r: "r = (c, st1)" by (cases r)
      from build_contig_extends [OF Cons.prems(1) False] Inr r have "extends st st1" by simp
      then have "memo_visited st1" by (rule extends_memo_visited)
      from Cons.IH [OF this Cons.prems(2)] False Inr r show ?thesis by simp
    qed
  qed
qed

lemma simple_path_no_fuel: "simple_path idx \<noteq> Inl OutOfFuel"
proof -
  have "simple_path_run idx \<noteq> Inl OutOfFuel"
    unfolding simple_path_run_def by (rule start_loop_no_fuel [OF memo_visited_initial]) simp
  then show ?thesis by (cases "simple_path_run idx") (auto simp: simple_path_def)
qed

section \<open>The recursion limit\<close>

text \<open>An answer other than \<open>OutOfFuel\<close> does not depend on the budget: every larger
  budget gives the same answer.\<close>

lemma forward_branch_more:
  assumes "\<And>s st. build s st \<noteq> Inl OutOfFuel \<Longrightarrow> build' s st = build s st"
    and "forward_branch build ss best st \<noteq> Inl OutOfFuel"
  shows "forward_branch build' ss best st = forward_branch build ss best st"
  using assms(2)
proof (induction ss arbitrary: best st)
  case Nil
  show ?case by simp
next
  case (Cons s ss)
  show ?case
  proof (cases "s \<in> visited st")
    case True
    with Cons show ?thesis by simp
  next
    case False
    show ?thesis
    proof (cases "build s st")
      case (Inl err)
      with Cons.prems False have "err \<noteq> OutOfFuel" by auto
      with Inl have "build' s st = Inl err" using assms(1) [of s st] by simp
      with Inl False show ?thesis by simp
    next
      case (Inr r)
      obtain c st1 where r: "r = (c, st1)" by (cases r)
      from Inr have "build' s st = Inr r" using assms(1) [of s st] by simp
      with Inr r False Cons show ?thesis by simp
    qed
  qed
qed

lemma backward_branch_more:
  assumes "\<And>p st. build p st \<noteq> Inl OutOfFuel \<Longrightarrow> build' p st = build p st"
    and "backward_branch build ps contig best st \<noteq> Inl OutOfFuel"
  shows "backward_branch build' ps contig best st = backward_branch build ps contig best st"
  using assms(2)
proof (induction ps arbitrary: best st)
  case Nil
  show ?case by simp
next
  case (Cons p ps)
  show ?case
  proof (cases "p \<in> visited st")
    case True
    with Cons show ?thesis by simp
  next
    case False
    show ?thesis
    proof (cases "build p st")
      case (Inl err)
      with Cons.prems False have "err \<noteq> OutOfFuel" by auto
      with Inl have "build' p st = Inl err" using assms(1) [of p st] by simp
      with Inl False show ?thesis by simp
    next
      case (Inr r)
      obtain c st1 where r: "r = (c, st1)" by (cases r)
      from Inr have "build' p st = Inr r" using assms(1) [of p st] by simp
      with Inr r False Cons show ?thesis by simp
    qed
  qed
qed

lemma forward_resolution_more:
  assumes "\<And>s st. build s st \<noteq> Inl OutOfFuel \<Longrightarrow> build' s st = build s st"
    and "forward_resolution build successor contig st \<noteq> Inl OutOfFuel"
  shows "forward_resolution build' successor contig st
           = forward_resolution build successor contig st"
proof (cases "length successor > 1")
  case True
  with assms(2) have "forward_branch build successor contig st \<noteq> Inl OutOfFuel"
    by (simp add: forward_resolution_def)
  with assms(1) have "forward_branch build' successor contig st
                        = forward_branch build successor contig st"
    by (rule forward_branch_more)
  with True show ?thesis by (simp add: forward_resolution_def)
next
  case False
  then show ?thesis by (simp add: forward_resolution_def)
qed

lemma backward_resolution_more:
  assumes "\<And>p st. build p st \<noteq> Inl OutOfFuel \<Longrightarrow> build' p st = build p st"
    and "backward_resolution build pre contig st \<noteq> Inl OutOfFuel"
  shows "backward_resolution build' pre contig st = backward_resolution build pre contig st"
proof (cases "length pre > 1")
  case True
  with assms(2) have "backward_branch build pre contig contig st \<noteq> Inl OutOfFuel"
    by (simp add: backward_resolution_def)
  with assms(1) have "backward_branch build' pre contig contig st
                        = backward_branch build pre contig contig st"
    by (rule backward_branch_more)
  with True show ?thesis by (simp add: backward_resolution_def)
next
  case False
  then show ?thesis by (simp add: backward_resolution_def)
qed

lemma build_contig_more:
  "build_contig idx fuel w st \<noteq> Inl OutOfFuel \<Longrightarrow> fuel \<le> budget
   \<Longrightarrow> build_contig idx budget w st = build_contig idx fuel w st"
proof (induction fuel arbitrary: budget w st)
  case 0
  then show ?case by simp
next
  case (Suc fuel)
  from Suc.prems(2) obtain budget' where budget: "budget = Suc budget'" and le: "fuel \<le> budget'"
    by (cases budget) auto
  have rec: "build_contig idx budget' s a = build_contig idx fuel s a"
    if "build_contig idx fuel s a \<noteq> Inl OutOfFuel" for s a
    using Suc.IH [OF that le] .
  show ?case
  proof (cases "map_of (contig_dict (enter w st)) w")
    case (Some c)
    then show ?thesis by (simp add: budget)
  next
    case None
    note memo = None
    show ?thesis
    proof (cases "map_of idx w")
      case None
      with memo show ?thesis by (simp add: budget)
    next
      case (Some e)
      show ?thesis
      proof (cases "forward_loop idx (successors e) w (visit w (enter w st))")
        case (Inl err)
        with memo Some show ?thesis by (simp add: budget)
      next
        case (Inr r1)
        obtain successor contig1 st1 where r1: "r1 = (successor, contig1, st1)" by (cases r1)
        note fl = Inr [unfolded r1]
        show ?thesis
        proof (cases "forward_resolution (build_contig idx fuel) successor contig1 st1")
          case (Inl err)
          with Suc.prems(1) memo Some fl have "err \<noteq> OutOfFuel" by auto
          with Inl have "forward_resolution (build_contig idx budget') successor contig1 st1
                           = Inl err"
            using forward_resolution_more [of "build_contig idx fuel" "build_contig idx budget'"
                successor contig1 st1, OF rec] by simp
          with Inl memo Some fl show ?thesis by (simp add: budget)
        next
          case (Inr r2)
          obtain contig2 st2 where r2: "r2 = (contig2, st2)" by (cases r2)
          note fr = Inr [unfolded r2]
          have fr': "forward_resolution (build_contig idx budget') successor contig1 st1
                       = Inr (contig2, st2)"
            using forward_resolution_more [of "build_contig idx fuel" "build_contig idx budget'"
                successor contig1 st1, OF rec] fr by simp
          show ?thesis
          proof (cases "backward_loop idx (predecessors e) contig2 st2")
            case (Inl err)
            with memo Some fl fr fr' show ?thesis by (simp add: budget)
          next
            case (Inr r3)
            obtain pre contig3 st3 where r3: "r3 = (pre, contig3, st3)" by (cases r3)
            note bl = Inr [unfolded r3]
            have "backward_resolution (build_contig idx fuel) pre contig3 st3 \<noteq> Inl OutOfFuel"
              using Suc.prems(1) memo Some fl fr bl by auto
            then have "backward_resolution (build_contig idx budget') pre contig3 st3
                         = backward_resolution (build_contig idx fuel) pre contig3 st3"
              by (intro backward_resolution_more [of "build_contig idx fuel", OF rec])
            with memo Some fl fr fr' bl show ?thesis by (simp add: budget)
          qed
        qed
      qed
    qed
  qed
qed

lemma start_loop_more:
  "start_loop idx fuel ws list_contig st \<noteq> Inl OutOfFuel \<Longrightarrow> fuel \<le> budget
   \<Longrightarrow> start_loop idx budget ws list_contig st = start_loop idx fuel ws list_contig st"
proof (induction ws arbitrary: list_contig st)
  case Nil
  show ?case by simp
next
  case (Cons w ws)
  show ?case
  proof (cases "w \<in> visited st")
    case True
    with Cons show ?thesis by simp
  next
    case False
    show ?thesis
    proof (cases "build_contig idx fuel w st")
      case (Inl err)
      with Cons.prems(1) False have "err \<noteq> OutOfFuel" by auto
      with Inl build_contig_more [of idx fuel w st budget, OF _ Cons.prems(2)]
      have "build_contig idx budget w st = Inl err" by simp
      with Inl False show ?thesis by simp
    next
      case (Inr r)
      obtain c st1 where r: "r = (c, st1)" by (cases r)
      from Inr build_contig_more [of idx fuel w st budget, OF _ Cons.prems(2)]
      have "build_contig idx budget w st = Inr r" by simp
      with Inr r False Cons show ?thesis by simp
    qed
  qed
qed

text \<open>Under every recursion limit the run gives the answer of \<open>simple_path\<close> or raises
  RecursionError, and a limit above the number of keys is never reached.\<close>

lemma simple_path_limited_cases:
  "simple_path_limited limit idx = simple_path idx \<or> simple_path_limited limit idx = Inl OutOfFuel"
proof -
  let ?run = "\<lambda>n. start_loop idx n (keys idx) [] initial"
  have full: "?run (Suc (length idx)) \<noteq> Inl OutOfFuel"
    by (rule start_loop_no_fuel [OF memo_visited_initial]) simp
  have "?run limit = ?run (Suc (length idx)) \<or> ?run limit = Inl OutOfFuel"
  proof (cases "limit \<le> Suc (length idx)")
    case True
    show ?thesis
    proof (cases "?run limit = Inl OutOfFuel")
      case False
      from start_loop_more [OF False True] show ?thesis by simp
    qed simp
  next
    case False
    then have "Suc (length idx) \<le> limit" by simp
    from start_loop_more [OF full this] show ?thesis by simp
  qed
  then show ?thesis
  proof
    assume "?run limit = ?run (Suc (length idx))"
    then show ?thesis
      by (simp add: simple_path_limited_def simple_path_def simple_path_run_def)
  next
    assume "?run limit = Inl OutOfFuel"
    then show ?thesis by (simp add: simple_path_limited_def)
  qed
qed

lemma simple_path_limited_enough:
  "length idx < limit \<Longrightarrow> simple_path_limited limit idx = simple_path idx"
proof -
  assume "length idx < limit"
  then have le: "Suc (length idx) \<le> limit" by simp
  have "start_loop idx (Suc (length idx)) (keys idx) [] initial \<noteq> Inl OutOfFuel"
    by (rule start_loop_no_fuel [OF memo_visited_initial]) simp
  from start_loop_more [OF this le] show ?thesis
    by (simp add: simple_path_limited_def simple_path_def simple_path_run_def)
qed

lemma pipeline_limited_cases:
  "\<exists>cs. pipeline sequences k threshold = Inr cs
     \<and> (pipeline_limited limit sequences k threshold = Inr cs
        \<or> pipeline_limited limit sequences k threshold = Inl OutOfFuel)"
proof -
  from pipeline_returns obtain cs where cs: "pipeline sequences k threshold = Inr cs" by blast
  with simple_path_limited_cases
         [of limit "predecessors_and_successors (filter_kmers (index_kmers sequences k) threshold)"]
  show ?thesis by (auto simp: pipeline_limited_def pipeline_def)
qed

section \<open>The memo is never hit\<close>

text \<open>
  Claim C10. In a run of \<open>simple_path\<close> every key of \<open>contig_dict\<close> is in \<open>visited\<close>,
  \<open>build_contig\<close> is never entered with a k-mer that is in \<open>visited\<close> (the ghost
  counter \<open>revisits\<close> is zero), and \<open>return contig_dict[w]\<close> is never executed (the ghost
  counter \<open>memo_hits\<close> is zero). The invariant is kept by every call of \<open>build_contig\<close>
  on an unvisited k-mer (\<open>build_contig_extends\<close>) and by both loops.
\<close>

theorem memo_never_hit:
  assumes "simple_path_run idx = Inr (list_contig, st)"
  shows "set (keys (contig_dict st)) \<subseteq> visited st \<and> revisits st = 0 \<and> memo_hits st = 0"
proof -
  from assms have "extends initial st"
    unfolding simple_path_run_def by (rule start_loop_extends [OF memo_visited_initial])
  then show ?thesis by (simp add: extends_def memo_visited_def initial_def)
qed

theorem memo_never_hit_witness:
  "simple_path_run (predecessors_and_successors [(''CA'', 2), (''AC'', 2), (''AG'', 2), (''GA'', 2)])
     = Inr ([''GAAC''],
         \<lparr>visited = {''AG'', ''GA'', ''AC'', ''CA''},
          contig_dict = [(''AG'', ''AG''), (''GA'', ''GA''), (''AC'', ''GAAC''), (''CA'', ''GAAC'')],
          memo_hits = 0, revisits = 0\<rparr>)
   \<and> set (keys [(''AG'', ''AG''), (''GA'', ''GA''), (''AC'', ''GAAC''), (''CA'', ''GAAC'')])
       \<subseteq> {''AG'', ''GA'', ''AC'', ''CA''}"
proof -
  have r: "simple_path_run
             (predecessors_and_successors [(''CA'', 2), (''AC'', 2), (''AG'', 2), (''GA'', 2)])
     = Inr ([''GAAC''],
         \<lparr>visited = {''AG'', ''GA'', ''AC'', ''CA''},
          contig_dict = [(''AG'', ''AG''), (''GA'', ''GA''), (''AC'', ''GAAC''), (''CA'', ''GAAC'')],
          memo_hits = 0, revisits = 0\<rparr>)"
    by code_simp
  from memo_never_hit [OF r] r show ?thesis by simp
qed

section \<open>A length \<open>k\<close> that is not positive\<close>

lemma keys_index_sequence_mono: "set (keys d) \<subseteq> set (keys (index_sequence k d s))"
proof (cases "pattern_match s")
  case False
  then show ?thesis by (simp add: index_sequence_def)
next
  case True
  have "set (keys d) \<subseteq> set (keys (foldl (\<lambda>km i. count_kmer km (py_slice s i (i + k))) d
            (py_range (int (length s) - k + 1))))"
  proof (rule foldl_invariant [where P = "\<lambda>a. set (keys d) \<subseteq> set (keys a)"])
    fix a :: kmer_counts and i
    assume "set (keys d) \<subseteq> set (keys a)"
    then show "set (keys d) \<subseteq> set (keys (count_kmer a (py_slice s i (i + k))))"
      by (auto simp: keys_count_kmer)
  qed simp
  with True show ?thesis by (simp add: index_sequence_def)
qed

lemma keys_index_fold_mono: "set (keys d) \<subseteq> set (keys (foldl (index_sequence k) d ss))"
proof (rule foldl_invariant [where P = "\<lambda>a. set (keys d) \<subseteq> set (keys a)"])
  fix a :: kmer_counts and s
  assume "set (keys d) \<subseteq> set (keys a)"
  with keys_index_sequence_mono [of a k s]
  show "set (keys d) \<subseteq> set (keys (index_sequence k a s))" by blast
qed simp

lemma py_range_last: "0 \<le> n \<Longrightarrow> py_range (n + 1) = py_range n @ [n]"
  by (simp add: py_range_def nat_add_distrib)

lemma py_slice_past_end: "int (length s) \<le> i \<Longrightarrow> py_slice s i j = []"
  by (simp add: py_slice_def py_bound_def)

lemma pattern_match_nonempty: "pattern_match s \<Longrightarrow> s \<noteq> []"
  by (auto simp: pattern_match_def acgt_plus_def)

lemma empty_kmer_indexed:
  assumes "k \<le> 0" and "pattern_match s"
  shows "[] \<in> set (keys (index_sequence k d s))"
proof -
  let ?n = "int (length s) - k"
  have n: "0 \<le> ?n" using assms(1) by simp
  have "py_slice s ?n (?n + k) = []" using assms(1) by (intro py_slice_past_end) simp
  moreover have "py_range (int (length s) - k + 1) = py_range ?n @ [?n]"
    using n by (rule py_range_last)
  ultimately show ?thesis using assms(2)
    by (simp add: index_sequence_def keys_count_kmer)
qed

lemma empty_kmer_in_index:
  assumes "k \<le> 0" and "s \<in> set sequences" and "pattern_match s"
  shows "[] \<in> set (keys (index_kmers sequences k))"
proof -
  from assms(2) obtain before after where sp: "sequences = before @ s # after"
    by (auto simp: in_set_conv_decomp)
  have "[] \<in> set (keys (index_sequence k (foldl (index_sequence k) [] before) s))"
    using assms(1,3) by (rule empty_kmer_indexed)
  then show ?thesis
    unfolding index_kmers_def sp using keys_index_fold_mono by fastforce
qed

lemma no_match_no_kmers:
  "\<forall>s \<in> set sequences. \<not> pattern_match s \<Longrightarrow> index_kmers sequences k = []"
  unfolding index_kmers_def
  by (rule foldl_invariant [where P = "\<lambda>d. d = []"]) (auto simp: index_sequence_def)

lemma pipeline_of_nothing:
  assumes "index_kmers sequences k = []"
  shows "filter_kmers (index_kmers sequences k) threshold = []
         \<and> predecessors_and_successors (filter_kmers (index_kmers sequences k) threshold) = []
         \<and> pipeline sequences k threshold = Inr []"
  by (simp add: assms pipeline_def filter_kmers_def predecessors_and_successors_def keys_def
        simple_path_def simple_path_run_def)

text \<open>
  Claim C5, where it fails. With \<open>k = 0\<close> the sequence ACGT has five windows, all the
  empty string, so \<open>index_kmers\<close> returns one k-mer with count five, the filter keeps
  it, and the contig list is the one empty contig. With \<open>k = -2\<close> the sequence ACGTA
  yields ACG, CGT and six empty windows, and the contig list has two contigs.
\<close>

theorem nonpositive_k_counterexample:
  "(0::int) \<le> 0
   \<and> index_kmers [''ACGT''] 0 = [('''', 5)]
   \<and> filter_kmers (index_kmers [''ACGT''] 0) 2 = [('''', 5)]
   \<and> pipeline [''ACGT''] 0 2 = Inr ['''']
   \<and> index_kmers [''ACGTA''] (- 2) = [(''ACG'', 1), (''CGT'', 1), ('''', 6)]
   \<and> pipeline [''ACGTA''] (- 2) 1 = Inr [''ACGT'', '''']"
  by code_simp

lemma pipeline_limited_of_nothing:
  assumes "index_kmers sequences k = []"
  shows "pipeline_limited limit sequences k threshold = Inr []"
  by (simp add: assms pipeline_limited_def simple_path_limited_def filter_kmers_def
        predecessors_and_successors_def keys_def)

text \<open>
  Claim C5, amended. Let \<open>k \<le> 0\<close>. \<open>index_kmers\<close> returns no k-mer exactly when the
  pattern accepts no sequence of the list; when it accepts one, the empty string is a key
  of the result. When \<open>index_kmers\<close> returns no k-mer, the filtered dict and the index
  are empty and the contig list is empty, under every recursion limit. In every case
  \<open>simple_path\<close> raises neither KeyError nor IndexError on the index: under every
  recursion limit the run returns the contig list, the one that a limit never reached
  gives, or it raises RecursionError.
\<close>

theorem nonpositive_k:
  assumes "k \<le> 0"
  shows "(index_kmers sequences k = [] \<longleftrightarrow> (\<forall>s \<in> set sequences. \<not> pattern_match s))
     \<and> ((\<exists>s \<in> set sequences. pattern_match s) \<longrightarrow> [] \<in> set (keys (index_kmers sequences k)))
     \<and> (index_kmers sequences k = [] \<longrightarrow>
          filter_kmers (index_kmers sequences k) threshold = []
          \<and> predecessors_and_successors (filter_kmers (index_kmers sequences k) threshold) = []
          \<and> pipeline_limited limit sequences k threshold = Inr [])
     \<and> (\<exists>cs. pipeline sequences k threshold = Inr cs
          \<and> (pipeline_limited limit sequences k threshold = Inr cs
             \<or> pipeline_limited limit sequences k threshold = Inl OutOfFuel))"
proof (intro conjI impI)
  show "index_kmers sequences k = [] \<longleftrightarrow> (\<forall>s \<in> set sequences. \<not> pattern_match s)"
  proof
    assume e: "index_kmers sequences k = []"
    show "\<forall>s \<in> set sequences. \<not> pattern_match s"
    proof (intro ballI notI)
      fix s assume "s \<in> set sequences" and "pattern_match s"
      with assms have "[] \<in> set (keys (index_kmers sequences k))" by (rule empty_kmer_in_index)
      with e show False by (simp add: keys_def)
    qed
  qed (rule no_match_no_kmers)
next
  assume "\<exists>s \<in> set sequences. pattern_match s"
  then obtain s where "s \<in> set sequences" and "pattern_match s" by blast
  with assms show "[] \<in> set (keys (index_kmers sequences k))" by (rule empty_kmer_in_index)
next
  assume "index_kmers sequences k = []"
  then show "pipeline_limited limit sequences k threshold = Inr []"
    by (rule pipeline_limited_of_nothing)
next
  show "\<exists>cs. pipeline sequences k threshold = Inr cs
          \<and> (pipeline_limited limit sequences k threshold = Inr cs
             \<or> pipeline_limited limit sequences k threshold = Inl OutOfFuel)"
    by (rule pipeline_limited_cases)
qed (use pipeline_of_nothing in blast)+

theorem nonpositive_k_witness:
  "(- 1 :: int) \<le> 0
   \<and> pattern_match ''CAA''
   \<and> '''' \<in> set (keys (index_kmers [''CAA'', ''ACA'', ''AGA'', ''GAA''] (- 1)))
   \<and> index_kmers [''CAA'', ''ACA'', ''AGA'', ''GAA''] (- 1) \<noteq> []
   \<and> pipeline [''CAA'', ''ACA'', ''AGA'', ''GAA''] (- 1) 1 = Inr [''GAAC'', '''']
   \<and> pipeline_limited 4 [''CAA'', ''ACA'', ''AGA'', ''GAA''] (- 1) 1 = Inr [''GAAC'', '''']
   \<and> pipeline_limited 3 [''CAA'', ''ACA'', ''AGA'', ''GAA''] (- 1) 1 = Inl OutOfFuel
   \<and> \<not> pattern_match ''ACNT'' \<and> index_kmers [''ACNT''] 0 = []
   \<and> filter_kmers (index_kmers [''ACNT''] 0) 2 = []
   \<and> predecessors_and_successors (filter_kmers (index_kmers [''ACNT''] 0) 2) = []
   \<and> pipeline_limited 0 [''ACNT''] 0 2 = Inr []"
proof -
  have h: "(- 1 :: int) \<le> 0" and h0: "(0 :: int) \<le> 0" by simp_all
  have m: "pattern_match ''CAA''" and n: "\<not> pattern_match ''ACNT''" by code_simp+
  have p: "pipeline [''CAA'', ''ACA'', ''AGA'', ''GAA''] (- 1) 1 = Inr [''GAAC'', '''']"
    and p4: "pipeline_limited 4 [''CAA'', ''ACA'', ''AGA'', ''GAA''] (- 1) 1 = Inr [''GAAC'', '''']"
    and p3: "pipeline_limited 3 [''CAA'', ''ACA'', ''AGA'', ''GAA''] (- 1) 1 = Inl OutOfFuel"
    by code_simp+
  have m': "\<exists>s \<in> set [''CAA'', ''ACA'', ''AGA'', ''GAA'']. pattern_match s" using m by simp
  have n': "\<forall>s \<in> set [''ACNT'']. \<not> pattern_match s" using n by simp
  from nonpositive_k [OF h, of "[''CAA'', ''ACA'', ''AGA'', ''GAA'']" 1 4] m'
  have a: "'''' \<in> set (keys (index_kmers [''CAA'', ''ACA'', ''AGA'', ''GAA''] (- 1)))
           \<and> index_kmers [''CAA'', ''ACA'', ''AGA'', ''GAA''] (- 1) \<noteq> []"
    by blast
  from nonpositive_k [OF h0, of "[''ACNT'']" 2 0] n'
  have b: "index_kmers [''ACNT''] 0 = [] \<and> filter_kmers (index_kmers [''ACNT''] 0) 2 = []
           \<and> predecessors_and_successors (filter_kmers (index_kmers [''ACNT''] 0) 2) = []
           \<and> pipeline_limited 0 [''ACNT''] 0 2 = Inr []"
    by blast
  from h m a p p4 p3 n b show ?thesis by blast
qed

section \<open>What the branch resolutions compute\<close>

lemma forward_branch_contigs:
  "forward_branch build ss best st
     = then_do (recursive_contigs build ss st) (\<lambda>(cs, st'). Inr (keep_longest best cs, st'))"
proof (induction ss arbitrary: best st)
  case Nil
  show ?case by simp
next
  case (Cons s ss)
  show ?case
  proof (cases "s \<in> visited st")
    case True
    then show ?thesis by (simp add: Cons.IH)
  next
    case False
    show ?thesis
    proof (cases "build s st")
      case (Inl err)
      with False show ?thesis by simp
    next
      case (Inr r)
      obtain c st1 where r: "r = (c, st1)" by (cases r)
      show ?thesis
        using False Inr r
        by (cases "recursive_contigs build ss st1") (auto simp: Cons.IH)
    qed
  qed
qed

lemma backward_branch_contigs:
  "backward_branch build ps contig best st
     = then_do (recursive_contigs build ps st)
         (\<lambda>(cs, st'). Inr (keep_longest best (map (\<lambda>c. c @ contig) cs), st'))"
proof (induction ps arbitrary: best st)
  case Nil
  show ?case by simp
next
  case (Cons p ps)
  show ?case
  proof (cases "p \<in> visited st")
    case True
    then show ?thesis by (simp add: Cons.IH)
  next
    case False
    show ?thesis
    proof (cases "build p st")
      case (Inl err)
      with False show ?thesis by simp
    next
      case (Inr r)
      obtain c st1 where r: "r = (c, st1)" by (cases r)
      show ?thesis
        using False Inr r
        by (cases "recursive_contigs build ps st1") (auto simp: Cons.IH)
    qed
  qed
qed

text \<open>The string kept is the first of the longest: everything before it in the list
  headed by the current contig is strictly shorter, nothing after it is longer.\<close>

lemma keep_longest_first:
  "\<exists>before after. best # cs = before @ keep_longest best cs # after
     \<and> (\<forall>c \<in> set before. length c < length (keep_longest best cs))
     \<and> (\<forall>c \<in> set after. length c \<le> length (keep_longest best cs))"
proof (induction cs arbitrary: best)
  case Nil
  show ?case by (rule exI [of _ "[]"], rule exI [of _ "[]"]) simp
next
  case (Cons c cs)
  show ?case
  proof (cases "length c > length best")
    case True
    then have r: "keep_longest best (c # cs) = keep_longest c cs" by simp
    from Cons.IH [of c] obtain before after where
      sp: "c # cs = before @ keep_longest c cs # after"
      and b: "\<forall>x \<in> set before. length x < length (keep_longest c cs)"
      and a: "\<forall>x \<in> set after. length x \<le> length (keep_longest c cs)" by blast
    have "c \<in> set (before @ keep_longest c cs # after)" unfolding sp [symmetric] by simp
    then have "length c \<le> length (keep_longest c cs)" using a b by auto
    with True have "length best < length (keep_longest c cs)" by simp
    with b have b': "\<forall>x \<in> set (best # before). length x < length (keep_longest c cs)" by simp
    have eq: "best # c # cs = (best # before) @ keep_longest c cs # after"
      unfolding append_Cons sp [symmetric] ..
    show ?thesis unfolding r
    proof (intro exI conjI)
      show "best # c # cs = (best # before) @ keep_longest c cs # after" by (rule eq)
    qed (rule b', rule a)
  next
    case False
    then have r: "keep_longest best (c # cs) = keep_longest best cs" by simp
    from Cons.IH [of best] obtain before after where
      sp: "best # cs = before @ keep_longest best cs # after"
      and b: "\<forall>x \<in> set before. length x < length (keep_longest best cs)"
      and a: "\<forall>x \<in> set after. length x \<le> length (keep_longest best cs)" by blast
    show ?thesis
    proof (cases before)
      case Nil
      have eq: "best # cs = keep_longest best cs # after"
        using sp unfolding Nil by (simp only: append_Nil)
      have k: "keep_longest best cs = best" using eq by (metis list.inject)
      have cs: "cs = after" using eq by (metis list.inject)
      have eq': "best # c # cs = [] @ keep_longest best cs # (c # after)"
        using k cs by simp
      have a': "\<forall>x \<in> set (c # after). length x \<le> length (keep_longest best cs)"
        using a False k by simp
      have b': "\<forall>x \<in> set ([] :: string list). length x < length (keep_longest best cs)"
        by simp
      show ?thesis unfolding r
      proof (intro exI conjI)
        show "best # c # cs = [] @ keep_longest best cs # (c # after)" by (rule eq')
      qed (rule b', rule a')
    next
      case (Cons b0 before')
      have eq: "best # cs = b0 # (before' @ keep_longest best cs # after)"
        using sp unfolding Cons by (simp only: append_Cons)
      have b0: "b0 = best" using eq by (metis list.inject)
      have cs: "cs = before' @ keep_longest best cs # after" using eq by (metis list.inject)
      have "length best < length (keep_longest best cs)" using b Cons b0 by simp
      with False have "length c < length (keep_longest best cs)" by simp
      with b Cons b0
      have b': "\<forall>x \<in> set (best # c # before'). length x < length (keep_longest best cs)"
        by simp
      have eq': "best # c # cs = (best # c # before') @ keep_longest best cs # after"
        unfolding append_Cons cs [symmetric] ..
      show ?thesis unfolding r
      proof (intro exI conjI)
        show "best # c # cs = (best # c # before') @ keep_longest best cs # after"
          by (rule eq')
      qed (rule b', rule a)
    qed
  qed
qed

lemma keep_longest_unchanged:
  "\<forall>c \<in> set cs. length c \<le> length best \<Longrightarrow> keep_longest best cs = best"
  by (induction cs arbitrary: best) auto

section \<open>Forward branch resolution\<close>

text \<open>
  Claim C4. After the forward loop, a successor list of more than one entry makes one
  recursive call for every successor that is not visited when its turn comes, and the
  contig becomes the first of the longest among the contig itself and the contigs \<open>cs\<close>
  that these calls return: a returned contig replaces the contig whole, nothing is
  concatenated, and only a strictly longer one replaces it, so the contig stays when no
  returned contig is strictly longer. A successor list of at most one entry leaves
  contig and state as they are.
\<close>

theorem forward_resolution_replaces:
  "forward_resolution build successor contig st
     = (if length successor > 1
        then then_do (recursive_contigs build successor st)
               (\<lambda>(cs, st'). Inr (keep_longest contig cs, st'))
        else Inr (contig, st))
   \<and> (\<exists>before after. contig # cs = before @ keep_longest contig cs # after
         \<and> (\<forall>c \<in> set before. length c < length (keep_longest contig cs))
         \<and> (\<forall>c \<in> set after. length c \<le> length (keep_longest contig cs)))
   \<and> ((\<forall>c \<in> set cs. length c \<le> length contig) \<longrightarrow> keep_longest contig cs = contig)"
  using keep_longest_first [of contig cs] keep_longest_unchanged [of cs contig]
  by (simp add: forward_resolution_def forward_branch_contigs)

theorem forward_resolution_replaces_witness:
  "forward_resolution (build_contig cacagagac 4) [''AC'', ''AG''] ''CA'' (visit ''CA'' initial)
     = Inr (''GAAC'',
         \<lparr>visited = {''AG'', ''GA'', ''AC'', ''CA''},
          contig_dict = [(''AG'', ''AG''), (''GA'', ''GA''), (''AC'', ''GAAC'')],
          memo_hits = 0, revisits = 0\<rparr>)
   \<and> recursive_contigs (build_contig cacagagac 4) [''AC'', ''AG''] (visit ''CA'' initial)
     = Inr ([''GAAC''],
         \<lparr>visited = {''AG'', ''GA'', ''AC'', ''CA''},
          contig_dict = [(''AG'', ''AG''), (''GA'', ''GA''), (''AC'', ''GAAC'')],
          memo_hits = 0, revisits = 0\<rparr>)
   \<and> list_all (\<lambda>c. length c \<le> length ''GA'') [''AG'']
   \<and> keep_longest ''GA'' [''AG''] = ''GA''"
proof -
  have r: "recursive_contigs (build_contig cacagagac 4) [''AC'', ''AG''] (visit ''CA'' initial)
     = Inr ([''GAAC''],
         \<lparr>visited = {''AG'', ''GA'', ''AC'', ''CA''},
          contig_dict = [(''AG'', ''AG''), (''GA'', ''GA''), (''AC'', ''GAAC'')],
          memo_hits = 0, revisits = 0\<rparr>)"
    by code_simp
  have h: "\<forall>c \<in> set [''AG'']. length c \<le> length ''GA''" by simp
  have a: "forward_resolution (build_contig cacagagac 4) [''AC'', ''AG''] ''CA''
             (visit ''CA'' initial)
     = Inr (''GAAC'',
         \<lparr>visited = {''AG'', ''GA'', ''AC'', ''CA''},
          contig_dict = [(''AG'', ''AG''), (''GA'', ''GA''), (''AC'', ''GAAC'')],
          memo_hits = 0, revisits = 0\<rparr>)"
    unfolding forward_resolution_replaces
         [of "build_contig cacagagac 4" "[''AC'', ''AG'']" "''CA''" "visit ''CA'' initial" "[]",
          THEN conjunct1] r
    by simp
  from forward_resolution_replaces [of build successor "''GA''" st "[''AG'']"] h
  have b: "keep_longest ''GA'' [''AG''] = ''GA''" by blast
  from a r h b show ?thesis by (simp add: list_all_iff)
qed

section \<open>Backward branch resolution\<close>

text \<open>
  Claim C3, where it fails. In the run on \<open>["CACAGAGAC"]\<close>, \<open>k = 2\<close>, \<open>threshold = 2\<close>
  the call \<open>build_contig("AC")\<close> reaches its backward branch resolution with
  \<open>pre = ["CA", "GA"]\<close>, \<open>contig = "AC"\<close> and \<open>visited = {"CA", "AC"}\<close>. One entry of
  \<open>pre\<close> is unvisited, not more than one, and yet the resolution is performed: GA is
  built and put before the contig, which becomes GAAC, the contig that the run returns.
  Performed only for more than one unvisited entry, the resolution would leave AC.
\<close>

theorem backward_resolution_counterexample:
  "unvisited_entries [''CA'', ''GA''] (visit ''AC'' (visit ''CA'' initial)) = [''GA'']
   \<and> backward_resolution (build_contig cacagagac 3) [''CA'', ''GA''] ''AC''
         (visit ''AC'' (visit ''CA'' initial))
       = Inr (''GAAC'',
           \<lparr>visited = {''AG'', ''GA'', ''AC'', ''CA''},
            contig_dict = [(''AG'', ''AG''), (''GA'', ''GA'')],
            memo_hits = 0, revisits = 0\<rparr>)
   \<and> backward_resolution_claimed (build_contig cacagagac 3) [''CA'', ''GA''] ''AC''
         (visit ''AC'' (visit ''CA'' initial))
       = Inr (''AC'', visit ''AC'' (visit ''CA'' initial))
   \<and> pipeline [''CACAGAGAC''] 2 2 = Inr [''GAAC'']"
  by code_simp

text \<open>
  Claim C3, amended. After the backward loop, a predecessor list of more than one entry,
  visited or not, makes one recursive call for every predecessor that is not visited when
  its turn comes; each returned contig is put before the current contig, and the contig
  becomes the first of the longest among itself and these combinations. A predecessor
  list of at most one entry leaves contig and state as they are.
\<close>

theorem backward_resolution_prepends:
  "backward_resolution build pre contig st
     = (if length pre > 1
        then then_do (recursive_contigs build pre st)
               (\<lambda>(cs, st'). Inr (keep_longest contig (map (\<lambda>c. c @ contig) cs), st'))
        else Inr (contig, st))
   \<and> (\<exists>before after.
         contig # map (\<lambda>c. c @ contig) cs
           = before @ keep_longest contig (map (\<lambda>c. c @ contig) cs) # after
         \<and> (\<forall>c \<in> set before.
               length c < length (keep_longest contig (map (\<lambda>c. c @ contig) cs)))
         \<and> (\<forall>c \<in> set after.
               length c \<le> length (keep_longest contig (map (\<lambda>c. c @ contig) cs))))"
  using keep_longest_first [of contig "map (\<lambda>c. c @ contig) cs"]
  by (simp add: backward_resolution_def backward_branch_contigs)

theorem backward_resolution_prepends_witness:
  "backward_resolution (build_contig cacagagac 3) [''CA'', ''GA''] ''AC''
         (visit ''AC'' (visit ''CA'' initial))
       = Inr (''GAAC'',
           \<lparr>visited = {''AG'', ''GA'', ''AC'', ''CA''},
            contig_dict = [(''AG'', ''AG''), (''GA'', ''GA'')],
            memo_hits = 0, revisits = 0\<rparr>)
   \<and> recursive_contigs (build_contig cacagagac 3) [''CA'', ''GA'']
         (visit ''AC'' (visit ''CA'' initial))
       = Inr ([''GA''],
           \<lparr>visited = {''AG'', ''GA'', ''AC'', ''CA''},
            contig_dict = [(''AG'', ''AG''), (''GA'', ''GA'')],
            memo_hits = 0, revisits = 0\<rparr>)
   \<and> (\<exists>before after.
         ''AC'' # map (\<lambda>c. c @ ''AC'') [''GA'']
           = before @ keep_longest ''AC'' (map (\<lambda>c. c @ ''AC'') [''GA'']) # after)"
proof -
  have r: "recursive_contigs (build_contig cacagagac 3) [''CA'', ''GA'']
         (visit ''AC'' (visit ''CA'' initial))
       = Inr ([''GA''],
           \<lparr>visited = {''AG'', ''GA'', ''AC'', ''CA''},
            contig_dict = [(''AG'', ''AG''), (''GA'', ''GA'')],
            memo_hits = 0, revisits = 0\<rparr>)"
    by code_simp
  have a: "backward_resolution (build_contig cacagagac 3) [''CA'', ''GA''] ''AC''
         (visit ''AC'' (visit ''CA'' initial))
       = Inr (''GAAC'',
           \<lparr>visited = {''AG'', ''GA'', ''AC'', ''CA''},
            contig_dict = [(''AG'', ''AG''), (''GA'', ''GA'')],
            memo_hits = 0, revisits = 0\<rparr>)"
    unfolding backward_resolution_prepends
         [of "build_contig cacagagac 3" "[''CA'', ''GA'']" "''AC''"
             "visit ''AC'' (visit ''CA'' initial)" "[]", THEN conjunct1] r
    by simp
  from backward_resolution_prepends [of build pre "''AC''" st "[''GA'']", THEN conjunct2]
  have b: "\<exists>before after.
         ''AC'' # map (\<lambda>c. c @ ''AC'') [''GA'']
           = before @ keep_longest ''AC'' (map (\<lambda>c. c @ ''AC'') [''GA'']) # after"
    by blast
  from a r b show ?thesis by (intro conjI)
qed

end
